theory Spec2Isabelle
  imports Complex_Main "HOL-Library.AList" "HOL-Library.Log_Nat"
begin

text \<open>
  The program \<^verbatim>\<open>pdfToImg\<close> converts the pages of a PDF document to JPEG files, chunk by
  chunk, opening the renderer anew for every chunk.  The repository holds three versions of
  it.  The model follows the last one, the version with the progress bar; the version
  before it has the same bounds and the same chunk loop and reports its progress in
  another way, and the first version bounds the end of the first chunk by the page count
  alone.
\<close>

section \<open>Machine integers\<close>

text \<open>
  Go's \<^verbatim>\<open>int\<close> is a two's complement machine integer; on the usual 64-bit platforms it
  has 64 bits and its addition and subtraction wrap around silently.  Values are modelled
  as \<^typ>\<open>int\<close>; every addition and subtraction of \<^verbatim>\<open>main\<close> whose operands are
  not bounded by the code itself is written with the wrap-around \<open>wrap\<close>.
\<close>

definition wrap :: "int \<Rightarrow> int" where
  "wrap x = (x + 2 ^ 63) mod 2 ^ 64 - 2 ^ 63"

definition is_int :: "int \<Rightarrow> bool" where
  "is_int x \<longleftrightarrow> - (2 ^ 63) \<le> x \<and> x < 2 ^ 63"

section \<open>\<^verbatim>\<open>intMin\<close>\<close>

text \<open>
  \<^verbatim>\<open>func intMin(vals ...int) int\<close>: panics on no argument (\<open>None\<close>), returns the only
  argument, and otherwise scans the rest for a value below the best one so far.
\<close>

fun intMin :: "int list \<Rightarrow> int option" where
  "intMin [] = None"
| "intMin [v] = Some v"
| "intMin (v # vs) = Some (fold (\<lambda>val best. if val < best then val else best) vs v)"

section \<open>Decimal numerals and file names\<close>

text \<open>
  \<^verbatim>\<open>fmt.Sprintf("%03d.jpg", n+1)\<close>.  The verb \<^verbatim>\<open>%03d\<close> prints a decimal number,
  padded with zeros to a width of three characters; a minus sign counts for the width and
  stands before the zeros.  The verb \<^verbatim>\<open>%d\<close> prints the number without padding.
\<close>

definition digit :: "nat \<Rightarrow> char" where
  "digit d = char_of (48 + d)"

fun decimal :: "nat \<Rightarrow> string" where
  "decimal n = (if n < 10 then [digit n] else decimal (n div 10) @ [digit (n mod 10)])"

declare decimal.simps [simp del]

definition sprintf_03d :: "int \<Rightarrow> string" where
  "sprintf_03d i =
     (let ds = decimal (nat \<bar>i\<bar>)
      in if i < 0 then CHR ''-'' # replicate (2 - length ds) CHR ''0'' @ ds
         else replicate (3 - length ds) CHR ''0'' @ ds)"

definition sprintf_d :: "int \<Rightarrow> string" where
  "sprintf_d i = (if i < 0 then CHR ''-'' # decimal (nat (- i)) else decimal (nat i))"

definition fileName :: "int \<Rightarrow> string" where
  "fileName n = sprintf_03d (wrap (n + 1)) @ ''.jpg''"

section \<open>Floating point\<close>

text \<open>
  Go's \<^verbatim>\<open>float64\<close> is the IEEE 754 double: 53 bits of precision, and every conversion
  and operation rounds its exact result to the nearest double, to the one with the even
  last bit when two are equally near.  A double is modelled by the rational number it
  stands for, and \<open>f64\<close> is the rounding.  The range of the exponent is not modelled:
  the only values rounded here are integers, their quotients, and products of the
  quotients with 20 and 100, all far from its ends.

  \<open>rhe\<close> rounds to the nearest integer, halves to the even one.  For \<open>x > 0\<close>,
  \<open>expo x\<close> is the exponent of \<open>x\<close>, the \<open>e\<close> with \<open>2\<^sup>e \<le> x < 2\<^sup>e\<^sup>+\<^sup>1\<close>; the
  doubles between these two powers are the multiples of \<open>2\<^sup>e\<^sup>-\<^sup>5\<^sup>2\<close>.
\<close>

definition rhe :: "rat \<Rightarrow> int" where
  "rhe x = (let f = \<lfloor>x\<rfloor>; d = x - of_int f
            in if d < 1 / 2 then f else if 1 / 2 < d then f + 1
               else if even f then f else f + 1)"

definition expo :: "rat \<Rightarrow> int" where
  "expo x = (case quotient_of x of (p, q) \<Rightarrow>
               (let e = bitlen p - bitlen q in if 2 powi e \<le> x then e else e - 1))"

definition f64 :: "rat \<Rightarrow> rat" where
  "f64 x = (if x = 0 then 0
            else (let u = 2 powi (expo \<bar>x\<bar> - 52)
                  in sgn x * of_int (rhe (\<bar>x\<bar> / u)) * u))"

text \<open>
  \<^verbatim>\<open>fmt.Sprintf("%.1f", x)\<close>: the decimal numeral with one digit after the point that
  is nearest to \<open>x\<close>, halves to the even digit.
\<close>

definition sprintf_1f :: "rat \<Rightarrow> string" where
  "sprintf_1f x =
     (let d = rhe (\<bar>x\<bar> * 10)
      in (if x < 0 then ''-'' else '''') @ decimal (nat (d div 10)) @ ''.''
           @ [digit (nat (d mod 10))])"

section \<open>Errors\<close>

text \<open>
  \<^verbatim>\<open>checkError\<close> calls \<^verbatim>\<open>log.Fatal\<close>, which ends the process with status 1; a
  panic ends it with status 2.  \<open>RepeatPanic\<close> is the panic of \<^verbatim>\<open>strings.Repeat\<close>
  on a negative count.  \<open>FloatToInt\<close> stands for a conversion of a \<^verbatim>\<open>float64\<close> that
  is not a number, or not in the range of \<^verbatim>\<open>int\<close>, to \<^verbatim>\<open>int\<close>: Go leaves its
  result to the implementation, and the model says nothing about what follows.
\<close>

datatype error =
  OpenError | RenderError int | CreateError int | EncodeError int
  | IntMinPanic | RepeatPanic | FloatToInt

section \<open>The progress bar\<close>

text \<open>\<^verbatim>\<open>strings.Repeat(s, count)\<close> panics when \<open>count\<close> is negative.\<close>

definition strings_Repeat :: "string \<Rightarrow> int \<Rightarrow> error + string" where
  "strings_Repeat s count =
     (if count < 0 then Inl RepeatPanic else Inr (concat (replicate (nat count) s)))"

text \<open>
  The line that \<^verbatim>\<open>logProgress(tot, cur)\<close> prints, or the error it ends with.  The line
  begins with a carriage return and has a tabulator before the bar.
\<close>

definition progressLine :: "int \<Rightarrow> int \<Rightarrow> error + string" where
  "progressLine tot cur =
     (if f64 (of_int tot) = 0 then Inl FloatToInt
      else
        (let progress = f64 (f64 (of_int cur) / f64 (of_int tot));
             outStr = [CHR 0x0D] @ ''through pg: '' @ sprintf_d cur @ [CHR 0x09] @ ''['';
             symCnt = \<lceil>f64 (20 * progress)\<rceil>
         in if \<not> is_int symCnt then Inl FloatToInt
            else
              (case strings_Repeat ''#'' symCnt of
                 Inl err \<Rightarrow> Inl err
               | Inr filled \<Rightarrow>
                   (case strings_Repeat '' '' (wrap (20 - symCnt)) of
                      Inl err \<Rightarrow> Inl err
                    | Inr blank \<Rightarrow>
                        Inr (outStr @ filled @ blank @ '']'' @ '' ''
                             @ sprintf_1f (f64 (progress * 100)) @ ''%'')))))"

section \<open>The world outside the program\<close>

text \<open>
  The renderer, the JPEG encoder and the file system are external.  Their answers are the
  fields of \<open>env\<close>: the page count of the document, and for every call whether it
  returns an error.  \<open>openFails k\<close> is the answer to the \<open>k\<close>-th call of
  \<^verbatim>\<open>fitz.New\<close> (counted from 0, the call in \<^verbatim>\<open>main\<close>).
\<close>

record env =
  numPages :: int
  openFails :: "nat \<Rightarrow> bool"
  renderFails :: "int \<Rightarrow> bool"
  createFails :: "string \<Rightarrow> bool"
  encodeFails :: "int \<Rightarrow> bool"

text \<open>
  What a run leaves behind and what it called: the files of the output directory (as
  created by this run, in the order of their creation), the page indices passed to
  \<^verbatim>\<open>doc.Image\<close>, the arguments of every call of \<^verbatim>\<open>logProgress\<close> that has printed
  its line, the number of calls of \<^verbatim>\<open>fitz.New\<close>, and the arguments of every call of
  \<^verbatim>\<open>processChunk\<close>.  A file is \<open>Created\<close> after \<^verbatim>\<open>os.Create\<close> (empty, or
  incomplete when the encoder failed), and \<open>Encoded n\<close> once \<^verbatim>\<open>jpeg.Encode\<close> has
  written the image of page \<open>n\<close>.
\<close>

datatype file_state = Created | Encoded int

record world =
  dir :: "(string \<times> file_state) list"
  images :: "int list"
  progress :: "(int \<times> int) list"
  opens :: nat
  chunks :: "(int \<times> int) list"

definition world0 :: world where
  "world0 = \<lparr>dir = [], images = [], progress = [], opens = 0, chunks = []\<rparr>"

text \<open>
  A run that ends with an error is \<open>Inl\<close> of the error and of the world at that
  moment.
\<close>

type_synonym 'a result = "(error \<times> world) + ('a \<times> world)"

section \<open>\<^verbatim>\<open>logProgress\<close> and \<^verbatim>\<open>processChunk\<close>\<close>

text \<open>
  \<^verbatim>\<open>logProgress(tot, cur)\<close> builds the line \<open>progressLine tot cur\<close> and prints it; the
  model records the call.
\<close>

definition logProgress :: "int \<Rightarrow> int \<Rightarrow> world \<Rightarrow> (error \<times> world) + world" where
  "logProgress tot cur w =
     (case progressLine tot cur of
        Inl err \<Rightarrow> Inl (err, w)
      | Inr line \<Rightarrow> Inr (w\<lparr>progress := progress w @ [(tot, cur)]\<rparr>))"

text \<open>
  The page loop of \<^verbatim>\<open>processChunk\<close>,
  \<^verbatim>\<open>for n := start; n < end; n++\<close>.  Inside the loop \<open>n < end\<close>, so \<open>n + 1\<close>
  does not wrap; \<open>count\<close> counts pages and stays below the page index bound as well.
  Once the page is encoded, and before the counter is incremented, the progress is
  printed if \<^verbatim>\<open>count%pollFreq == 0\<close>: a test of divisibility by 5, on which Go's
  truncating remainder and \<open>mod\<close> agree.
\<close>

function pageLoop :: "env \<Rightarrow> int \<Rightarrow> int \<Rightarrow> int \<Rightarrow> int \<Rightarrow> world \<Rightarrow> int result" where
  "pageLoop e tot endp n count w =
     (if n < endp then
        (let w1 = w\<lparr>images := images w @ [n]\<rparr> in
         if renderFails e n then Inl (RenderError n, w1)
         else if createFails e (fileName n) then Inl (CreateError n, w1)
         else
           (let w2 = w1\<lparr>dir := AList.update (fileName n) Created (dir w1)\<rparr> in
            if encodeFails e n then Inl (EncodeError n, w2)
            else
              (let w3 = w2\<lparr>dir := AList.update (fileName n) (Encoded n) (dir w2)\<rparr>
               in if count mod 5 = 0 then
                    (case logProgress tot count w3 of
                       Inl err \<Rightarrow> Inl err
                     | Inr w4 \<Rightarrow> pageLoop e tot endp (n + 1) (count + 1) w4)
                  else pageLoop e tot endp (n + 1) (count + 1) w3)))
      else Inr (count, w))"
  by pat_completeness auto
termination
  by (relation "measure (\<lambda>(e, tot, endp, n, count, w). nat (endp - n))") auto

declare pageLoop.simps [simp del]

definition processChunk :: "env \<Rightarrow> int \<Rightarrow> int \<Rightarrow> int \<Rightarrow> int \<Rightarrow> world \<Rightarrow> int result" where
  "processChunk e start endp cnt tot w =
     (let w0 = w\<lparr>opens := opens w + 1\<rparr> in
      if openFails e (opens w) then Inl (OpenError, w0)
      else
        (case pageLoop e tot endp start cnt w0 of
           Inl err \<Rightarrow> Inl err
         | Inr (count, w1) \<Rightarrow>
             (case logProgress tot count w1 of
                Inl err \<Rightarrow> Inl err
              | Inr w2 \<Rightarrow> Inr (count, w2))))"

section \<open>\<^verbatim>\<open>main\<close>\<close>

text \<open>
  The chunk loop of \<^verbatim>\<open>main\<close>, \<^verbatim>\<open>for remPages > 0\<close>.  Nothing in the code bounds
  the number of its iterations, so the loop is a partial function: \<open>None\<close> is a run
  that never leaves the loop.
\<close>

partial_function (option) chunkLoop ::
  "env \<Rightarrow> int \<Rightarrow> int \<Rightarrow> int \<Rightarrow> int \<Rightarrow> int \<Rightarrow> int \<Rightarrow> int \<Rightarrow> world \<Rightarrow> int result option" where
  "chunkLoop e chunkSize totalPages tot remPages curStart curEnd count w =
     (if remPages > 0 then
        (case processChunk e curStart curEnd count tot
                (w\<lparr>chunks := chunks w @ [(curStart, curEnd)]\<rparr>) of
           Inl err \<Rightarrow> Some (Inl err)
         | Inr (count', w') \<Rightarrow>
             (case intMin [wrap (curEnd + chunkSize), totalPages] of
                None \<Rightarrow> Some (Inl (IntMinPanic, w'))
              | Some curEnd' \<Rightarrow>
                  chunkLoop e chunkSize totalPages tot
                    (wrap (remPages - wrap (curEnd - curStart))) curEnd curEnd' count' w'))
      else Some (Inr (count, w)))"

declare chunkLoop.simps [code]

text \<open>
  The bounds of the page range, from the flags \<^verbatim>\<open>-s\<close> and \<^verbatim>\<open>-e\<close>.  The
  subtraction \<^verbatim>\<open>*startPgF - 1\<close> is guarded by \<^verbatim>\<open>*startPgF > 0\<close> and does not wrap.
\<close>

definition startPage :: "int \<Rightarrow> int \<Rightarrow> int" where
  "startPage startPgF endPgF =
     (if startPgF > 0 \<and> startPgF \<le> endPgF then startPgF - 1 else 0)"

definition endPage :: "int \<Rightarrow> int \<Rightarrow> int" where
  "endPage endPgF totalPages =
     (if endPgF < 0 \<or> endPgF > totalPages then totalPages else endPgF)"

text \<open>
  \<^verbatim>\<open>main\<close> from the first \<^verbatim>\<open>fitz.New\<close> on, with the flags \<^verbatim>\<open>-s\<close>, \<^verbatim>\<open>-e\<close>
  and \<^verbatim>\<open>-c\<close>; the output directory has been created and emptied before.
\<close>

definition main :: "env \<Rightarrow> int \<Rightarrow> int \<Rightarrow> int \<Rightarrow> int result option" where
  "main e startPgF endPgF chunkSizeF =
     (let w = world0\<lparr>opens := 1\<rparr> in
      if openFails e 0 then Some (Inl (OpenError, w))
      else
        (let totalPages = numPages e;
             sp = startPage startPgF endPgF;
             ep = endPage endPgF totalPages;
             remPages = wrap (ep - sp)
         in case intMin [wrap (sp + remPages), wrap (sp + chunkSizeF), totalPages] of
              None \<Rightarrow> Some (Inl (IntMinPanic, w))
            | Some curEnd \<Rightarrow>
                chunkLoop e chunkSizeF totalPages (wrap (ep - sp)) remPages sp curEnd 0 w))"

section \<open>Notions used in the statements\<close>

text \<open>Reading a decimal numeral back, to say which number a file name shows.\<close>

definition digitVal :: "char \<Rightarrow> nat" where
  "digitVal ch = of_char ch - 48"

definition decode :: "string \<Rightarrow> nat" where
  "decode str = foldl (\<lambda>acc ch. 10 * acc + digitVal ch) 0 str"

text \<open>
  \<open>str\<close> is the decimal numeral of \<open>v\<close>, padded with zeros to a width of at
  least three: at least three characters, all of them digits, that read as \<open>v\<close>,
  and no zero in front once the width exceeds three.
\<close>

definition padded3 :: "nat \<Rightarrow> string \<Rightarrow> bool" where
  "padded3 v str \<longleftrightarrow>
     3 \<le> length str \<and> set str \<subseteq> set ''0123456789'' \<and> decode str = v \<and>
     (3 < length str \<longrightarrow> hd str \<noteq> CHR ''0'')"

text \<open>
  The directory after the pages \<open>a \<le> n < b\<close> have been converted in this order, and
  nothing else has happened.
\<close>

definition written :: "int \<Rightarrow> int \<Rightarrow> (string \<times> file_state) list" where
  "written a b = map (\<lambda>n. (fileName n, Encoded n)) [a..b - 1]"

text \<open>No call made for page \<open>k\<close> returns an error.\<close>

definition pageOk :: "env \<Rightarrow> int \<Rightarrow> bool" where
  "pageOk e k \<longleftrightarrow> \<not> renderFails e k \<and> \<not> createFails e (fileName k) \<and> \<not> encodeFails e k"

text \<open>
  A run that began at page \<open>a\<close> and announced \<open>tot\<close> pages has stopped with
  \<open>err\<close> at page \<open>k\<close>, leaving \<open>w\<close>.  Either the pages before \<open>k\<close> are
  finished and then the renderer could not be opened for the chunk that begins at \<open>k\<close>,
  or \<^verbatim>\<open>logProgress\<close> panicked because more than \<open>tot\<close> pages were finished; or page
  \<open>k\<close> was passed to the renderer as the last one and one of its three calls failed.
\<close>

definition stoppedAt :: "env \<Rightarrow> int \<Rightarrow> int \<Rightarrow> int \<Rightarrow> error \<Rightarrow> world \<Rightarrow> bool" where
  "stoppedAt e a tot k err w \<longleftrightarrow>
     (images w = [a..k - 1] \<and> dir w = written a k \<and>
        ((err = OpenError \<and> openFails e (opens w - 1))
         \<or> (err = RepeatPanic \<and> tot < k - a)))
     \<or> (images w = [a..k] \<and>
         ((err = RenderError k \<and> renderFails e k \<and> dir w = written a k)
          \<or> (err = CreateError k \<and> \<not> renderFails e k \<and> createFails e (fileName k)
                \<and> dir w = written a k)
          \<or> (err = EncodeError k \<and> \<not> renderFails e k \<and> \<not> createFails e (fileName k)
                \<and> encodeFails e k \<and> dir w = written a k @ [(fileName k, Created)])))"

text \<open>
  How a run that began at page \<open>a\<close> of a document of \<open>t\<close> pages, announced
  \<open>tot\<close> pages and has converted the pages before \<open>m\<close> can end: without an error,
  the pages before some \<open>m'\<close> converted and the counter at their number, which is at
  most \<open>tot\<close> once a chunk has been processed; or stopped at a page \<open>k\<close>.  In
  both cases every call before has succeeded.
\<close>

definition reached :: "env \<Rightarrow> int \<Rightarrow> int \<Rightarrow> int \<Rightarrow> int \<Rightarrow> int result \<Rightarrow> bool" where
  "reached e a t tot m r \<longleftrightarrow>
     (case r of
        Inr (count', w') \<Rightarrow>
          (\<exists>m'. m \<le> m' \<and> (m' = m \<or> m' \<le> t) \<and> dir w' = written a m'
             \<and> images w' = [a..m' - 1] \<and> count' = m' - a \<and> (m' = m \<or> count' \<le> tot)
             \<and> (\<forall>k. m \<le> k \<and> k < m' \<longrightarrow> pageOk e k)
             \<and> (\<forall>i<opens w'. \<not> openFails e i))
      | Inl (err, w') \<Rightarrow>
          (\<exists>k. m \<le> k \<and> k \<le> t \<and> (\<forall>j. m \<le> j \<and> j < k \<longrightarrow> pageOk e j)
             \<and> (\<forall>i<opens w' - 1. \<not> openFails e i) \<and> stoppedAt e a tot k err w'))"

text \<open>
  The percentage that \<^verbatim>\<open>logProgress(tot, cur)\<close> prints, in tenths of a percent: the
  double \<^verbatim>\<open>progress*100\<close>, rounded by \<^verbatim>\<open>%.1f\<close>.
\<close>

definition tenths :: "int \<Rightarrow> int \<Rightarrow> int" where
  "tenths tot cur = rhe (f64 (f64 (f64 (of_int cur) / f64 (of_int tot)) * 100) * 10)"

text \<open>The world a run ends in, with or without an error.\<close>

definition final :: "int result \<Rightarrow> world" where
  "final r = (case r of Inl (err, w) \<Rightarrow> w | Inr (count, w) \<Rightarrow> w)"

text \<open>
  The state of the chunk loop at its head fits the range that ends at \<open>ep\<close>: the
  remaining count is what is left of the range, and the chunk ahead is not empty and ends
  in the document, or its end has wrapped around.
\<close>

definition sched :: "int \<Rightarrow> int \<Rightarrow> int \<Rightarrow> int \<Rightarrow> int \<Rightarrow> int \<Rightarrow> bool" where
  "sched c totalPages ep remPages curStart curEnd \<longleftrightarrow>
     remPages = ep - curStart \<and>
     (curStart < curEnd \<and> curEnd \<le> totalPages
      \<or> curEnd = curStart + c - 18446744073709551616 \<and> 9223372036854775808 \<le> curStart + c)"

text \<open>Documents of \<open>t\<close> pages: one on which no call fails, and two with one failing call.\<close>

definition perfect :: "int \<Rightarrow> env" where
  "perfect t = \<lparr>numPages = t, openFails = (\<lambda>k. False), renderFails = (\<lambda>n. False),
     createFails = (\<lambda>name. False), encodeFails = (\<lambda>n. False)\<rparr>"

definition encodeFailsAt :: "int \<Rightarrow> int \<Rightarrow> env" where
  "encodeFailsAt t k = (perfect t)\<lparr>encodeFails := (\<lambda>n. n = k)\<rparr>"

definition renderFailsAt :: "int \<Rightarrow> int \<Rightarrow> env" where
  "renderFailsAt t k = (perfect t)\<lparr>renderFails := (\<lambda>n. n = k)\<rparr>"

section \<open>Wrap-around, \<^verbatim>\<open>intMin\<close> and file names\<close>

lemma wrap_id: "- 9223372036854775808 \<le> x \<Longrightarrow> x < 9223372036854775808 \<Longrightarrow> wrap x = x"
  by (simp add: wrap_def)

lemma wrap_over:
  "9223372036854775808 \<le> x \<Longrightarrow> x < 27670116110564327424 \<Longrightarrow> wrap x = x - 18446744073709551616"
proof -
  assume a: "9223372036854775808 \<le> x" "x < 27670116110564327424"
  have "(x + 9223372036854775808) mod 18446744073709551616
        = (x + 9223372036854775808 - 18446744073709551616) mod 18446744073709551616"
    by (metis minus_mod_self2)
  also have "\<dots> = x + 9223372036854775808 - 18446744073709551616"
    using a by (simp add: mod_pos_pos_trivial)
  finally show ?thesis by (simp add: wrap_def)
qed

lemma wrap_under:
  "- 27670116110564327424 \<le> x \<Longrightarrow> x < - 9223372036854775808 \<Longrightarrow> wrap x = x + 18446744073709551616"
proof -
  assume a: "- 27670116110564327424 \<le> x" "x < - 9223372036854775808"
  have "(x + 9223372036854775808) mod 18446744073709551616
        = (x + 9223372036854775808 + 18446744073709551616) mod 18446744073709551616"
    by (metis mod_add_self2)
  also have "\<dots> = x + 9223372036854775808 + 18446744073709551616"
    using a by (simp add: mod_pos_pos_trivial)
  finally show ?thesis by (simp add: wrap_def)
qed

lemma intMin2: "intMin [a, b] = Some (min a b)"
  by (simp add: min_def)

lemma intMin3: "intMin [a, b, c] = Some (min a (min b c))"
  by (simp add: min_def)

lemma digitVal_digit: "d < 10 \<Longrightarrow> digitVal (digit d) = d"
  by (simp add: digitVal_def digit_def)

lemma decode_snoc: "decode (str @ [ch]) = 10 * decode str + digitVal ch"
  by (simp add: decode_def)

lemma decode_decimal: "decode (decimal n) = n"
proof (induction n rule: decimal.induct)
  case (1 n)
  show ?case
  proof (cases "n < 10")
    case True
    then show ?thesis by (subst decimal.simps) (simp add: decode_def digitVal_digit)
  next
    case False
    then have "decode (decimal n) = 10 * decode (decimal (n div 10)) + digitVal (digit (n mod 10))"
      by (subst decimal.simps) (simp add: decode_snoc)
    also have "\<dots> = 10 * (n div 10) + n mod 10"
      using 1 False by (simp add: digitVal_digit)
    finally show ?thesis by simp
  qed
qed

lemma decode_zeros: "decode (replicate k CHR ''0'' @ str) = decode str"
proof -
  have "foldl (\<lambda>acc ch. 10 * acc + digitVal ch) 0 (replicate k CHR ''0'') = 0"
    by (induction k) (simp_all add: digitVal_def)
  then show ?thesis by (simp add: decode_def)
qed

lemma decode_sprintf: "0 \<le> i \<Longrightarrow> decode (sprintf_03d i) = nat i"
  by (simp add: sprintf_03d_def Let_def decode_zeros decode_decimal)

lemma fileName_eq: "0 \<le> n \<Longrightarrow> n < 9223372036854775807 \<Longrightarrow> fileName n = sprintf_03d (n + 1) @ ''.jpg''"
  by (simp add: fileName_def wrap_id)

lemma fileName_inj:
  assumes "0 \<le> n" "n < 9223372036854775807" "0 \<le> m" "m < 9223372036854775807"
    and "fileName n = fileName m"
  shows "n = m"
proof -
  from assms have "sprintf_03d (n + 1) = sprintf_03d (m + 1)"
    by (simp add: fileName_eq)
  then have "decode (sprintf_03d (n + 1)) = decode (sprintf_03d (m + 1))" by simp
  with assms show ?thesis by (simp add: decode_sprintf)
qed

lemma update_fresh: "k \<notin> fst ` set al \<Longrightarrow> AList.update k v al = al @ [(k, v)]"
  by (induction al) auto

lemma update_same_last: "k \<notin> fst ` set al \<Longrightarrow> AList.update k v' (al @ [(k, v)]) = al @ [(k, v')]"
  by (induction al) auto

lemma written_snoc: "a \<le> n \<Longrightarrow> written a (n + 1) = written a n @ [(fileName n, Encoded n)]"
  by (simp add: written_def upto_rec2)

lemma fileName_fresh:
  assumes "0 \<le> a" "a \<le> n" "n < 9223372036854775807"
  shows "fileName n \<notin> fst ` set (written a n)"
proof
  assume "fileName n \<in> fst ` set (written a n)"
  then obtain m where m: "a \<le> m" "m \<le> n - 1" "fileName n = fileName m"
    by (auto simp: written_def)
  with assms have "n = m" by (intro fileName_inj) auto
  with m show False by simp
qed

section \<open>File names are padded numerals\<close>

lemma digit_cases:
  "digit 0 = CHR ''0''" "digit 1 = CHR ''1''" "digit 2 = CHR ''2''" "digit 3 = CHR ''3''"
  "digit 4 = CHR ''4''" "digit 5 = CHR ''5''" "digit 6 = CHR ''6''" "digit 7 = CHR ''7''"
  "digit 8 = CHR ''8''" "digit 9 = CHR ''9''" "digit (Suc 0) = CHR ''1''"
  by code_simp+

lemma digit_range: "d < 10 \<Longrightarrow> digit d \<in> set ''0123456789''"
proof -
  assume "d < 10"
  then have "d = 0 \<or> d = 1 \<or> d = 2 \<or> d = 3 \<or> d = 4 \<or> d = 5 \<or> d = 6 \<or> d = 7 \<or> d = 8 \<or> d = 9"
    by arith
  then show ?thesis by (elim disjE) (simp_all add: digit_cases)
qed

lemma digit_nonzero: "0 < d \<Longrightarrow> d < 10 \<Longrightarrow> digit d \<noteq> CHR ''0''"
proof -
  assume "0 < d" "d < 10"
  then have "d = 1 \<or> d = 2 \<or> d = 3 \<or> d = 4 \<or> d = 5 \<or> d = 6 \<or> d = 7 \<or> d = 8 \<or> d = 9"
    by arith
  then show ?thesis by (elim disjE) (simp_all add: digit_cases)
qed

lemma decimal_nonempty: "decimal n \<noteq> []"
  by (subst decimal.simps) simp

lemma decimal_digits: "set (decimal n) \<subseteq> set ''0123456789''"
proof (induction n rule: decimal.induct)
  case (1 n)
  show ?case
  proof (cases "n < 10")
    case True
    then show ?thesis using digit_range[of n] by (subst decimal.simps) simp
  next
    case False
    have "n mod 10 < 10" by simp
    then have "digit (n mod 10) \<in> set ''0123456789''" by (rule digit_range)
    with 1 False show ?thesis by (subst decimal.simps) simp
  qed
qed

lemma decimal_hd: "0 < n \<Longrightarrow> hd (decimal n) \<noteq> CHR ''0''"
proof (induction n rule: decimal.induct)
  case (1 n)
  show ?case
  proof (cases "n < 10")
    case True
    then show ?thesis using digit_nonzero[of n] "1.prems" by (subst decimal.simps) simp
  next
    case False
    then have "0 < n div 10" by simp
    with 1 False have "hd (decimal (n div 10)) \<noteq> CHR ''0''" by simp
    then show ?thesis using False decimal_nonempty[of "n div 10"]
      by (subst decimal.simps) simp
  qed
qed

lemma sprintf_padded: "0 < i \<Longrightarrow> padded3 (nat i) (sprintf_03d i)"
proof -
  assume pos: "0 < i"
  let ?ds = "decimal (nat i)"
  have s: "sprintf_03d i = replicate (3 - length ?ds) CHR ''0'' @ ?ds"
    using pos by (simp add: sprintf_03d_def Let_def)
  have "3 \<le> length (sprintf_03d i)" by (simp add: s)
  moreover have "set (sprintf_03d i) \<subseteq> set ''0123456789''"
    using decimal_digits[of "nat i"] by (auto simp: s)
  moreover have "decode (sprintf_03d i) = nat i"
    using pos by (simp add: decode_sprintf)
  moreover have "3 < length (sprintf_03d i) \<longrightarrow> hd (sprintf_03d i) \<noteq> CHR ''0''"
  proof
    assume "3 < length (sprintf_03d i)"
    then have "3 < length ?ds" by (simp add: s)
    then have "sprintf_03d i = ?ds" by (simp add: s)
    then show "hd (sprintf_03d i) \<noteq> CHR ''0''" using decimal_hd[of "nat i"] pos by simp
  qed
  ultimately show ?thesis by (simp add: padded3_def)
qed

lemma fileName_padded:
  "0 \<le> n \<Longrightarrow> n < 9223372036854775807 \<Longrightarrow>
     \<exists>str. fileName n = str @ ''.jpg'' \<and> padded3 (nat (n + 1)) str"
  using sprintf_padded[of "n + 1"] by (auto simp: fileName_eq)

section \<open>Rounding to a double\<close>

lemma p2_pos: "0 < (2::rat) powi a"
  by (simp add: power_int_def)

lemma p2_add: "(2::rat) powi (a + b) = 2 powi a * 2 powi b"
  by (simp add: power_int_add)

lemma p2_diff: "(2::rat) powi (a - b) = 2 powi a / 2 powi b"
  by (simp add: power_int_diff)

lemma p2_mono: "a \<le> b \<Longrightarrow> (2::rat) powi a \<le> 2 powi b"
  by (simp add: power_int_increasing)

lemma p2_nat: "0 \<le> k \<Longrightarrow> (2::rat) powi k = of_int (2 ^ nat k)"
  by (simp add: power_int_def)

lemma p2_less_iff: "(2::rat) powi a < 2 powi b \<longleftrightarrow> a < b"
  by (metis linorder_not_less p2_mono power_int_strict_increasing one_less_numeral_iff semiring_norm(76))

lemma bitlen_rat:
  assumes "0 < p"
  shows "(2::rat) powi (bitlen p - 1) \<le> of_int p" "of_int p < (2::rat) powi (bitlen p)"
proof -
  from bitlen_bounds[OF assms] have b: "2 ^ nat (bitlen p - 1) \<le> p" "p < 2 ^ nat (bitlen p)"
    by simp_all
  have b1: "1 \<le> bitlen p" using assms by (simp add: bitlen_alt_def)
  have "(of_int (2 ^ nat (bitlen p - 1)) :: rat) \<le> of_int p" using b(1) by (simp only: of_int_le_iff)
  then show "(2::rat) powi (bitlen p - 1) \<le> of_int p" using b1 by (simp add: p2_nat)
  have "(of_int p :: rat) < of_int (2 ^ nat (bitlen p))" using b(2) by (simp only: of_int_less_iff)
  then show "of_int p < (2::rat) powi (bitlen p)" using b1 by (simp add: p2_nat)
qed

lemma expo_bounds:
  assumes "0 < x"
  shows "2 powi (expo x) \<le> x" "x < 2 powi (expo x + 1)"
proof -
  obtain p q where pq: "quotient_of x = (p, q)" by (cases "quotient_of x")
  have q: "0 < q" using pq by (rule quotient_of_denom_pos)
  have x: "x = of_int p / of_int q" using pq by (rule quotient_of_div)
  have p: "0 < p" using assms q x by (simp add: zero_less_divide_iff)
  let ?e = "bitlen p - bitlen q"
  have qr: "0 < (of_int q :: rat)" using q by simp
  have up: "x < 2 powi (?e + 1)"
  proof -
    have "of_int p < (2::rat) powi (bitlen p)" by (rule bitlen_rat[OF p])
    also have "\<dots> = 2 powi (?e + 1) * 2 powi (bitlen q - 1)"
      by (simp add: p2_add[symmetric])
    also have "\<dots> \<le> 2 powi (?e + 1) * of_int q"
      using bitlen_rat(1)[OF q] p2_pos[of "?e + 1"] by (simp add: mult_left_mono)
    finally show ?thesis using qr by (simp add: x pos_divide_less_eq)
  qed
  have lo: "2 powi (?e - 1) \<le> x"
  proof -
    have "2 powi (?e - 1) * of_int q \<le> 2 powi (?e - 1) * (2::rat) powi (bitlen q)"
      using bitlen_rat(2)[OF q] p2_pos[of "?e - 1"] by (simp add: mult_left_mono)
    also have "\<dots> = 2 powi (bitlen p - 1)" by (simp add: p2_add[symmetric])
    also have "\<dots> \<le> of_int p" by (rule bitlen_rat[OF p])
    finally show ?thesis using qr by (simp add: x pos_le_divide_eq)
  qed
  have e: "expo x = (if 2 powi ?e \<le> x then ?e else ?e - 1)"
    by (simp add: expo_def pq Let_def)
  show "2 powi (expo x) \<le> x" using lo by (simp add: e)
  show "x < 2 powi (expo x + 1)" using up by (auto simp: e)
qed

lemma rhe_le: "z \<le> of_int n \<Longrightarrow> rhe z \<le> n"
proof -
  assume h: "z \<le> of_int n"
  then have f: "\<lfloor>z\<rfloor> \<le> n" by (simp add: floor_le_iff)
  show ?thesis
  proof (cases "\<lfloor>z\<rfloor> = n")
    case True
    then have "of_int n \<le> z" by (metis of_int_floor_le)
    with h have "z = of_int n" by simp
    then show ?thesis by (simp add: rhe_def)
  next
    case False
    with f have "\<lfloor>z\<rfloor> + 1 \<le> n" by simp
    then show ?thesis by (auto simp: rhe_def Let_def)
  qed
qed

lemma rhe_ge: "of_int n \<le> z \<Longrightarrow> n \<le> rhe z"
proof -
  assume "of_int n \<le> z"
  then have "n \<le> \<lfloor>z\<rfloor>" by (simp add: le_floor_iff)
  then show ?thesis by (auto simp: rhe_def Let_def)
qed

lemma f64_pos: "0 < x \<Longrightarrow> f64 x = of_int (rhe (x / 2 powi (expo x - 52))) * 2 powi (expo x - 52)"
  by (simp add: f64_def Let_def)

lemma p2_52: "(2::rat) powi e = 4503599627370496 * 2 powi (e - 52)"
  using p2_add[of 52 "e - 52"] by simp

lemma p2_53: "(2::rat) powi (e + 1) = 9007199254740992 * 2 powi (e - 52)"
  using p2_add[of 53 "e - 52"] by (simp add: add.commute)

lemma scaled_range:
  assumes "0 < x"
  shows "of_int 4503599627370496 \<le> x / 2 powi (expo x - 52)"
    "x / 2 powi (expo x - 52) \<le> of_int 9007199254740992"
proof -
  let ?u = "(2::rat) powi (expo x - 52)"
  have u: "0 < ?u" by (rule p2_pos)
  have "4503599627370496 * ?u \<le> x"
    using expo_bounds(1)[OF assms] by (simp add: p2_52[symmetric])
  then show "of_int 4503599627370496 \<le> x / ?u" using u by (simp add: pos_le_divide_eq)
  have "x < 9007199254740992 * ?u"
    using expo_bounds(2)[OF assms] by (simp add: p2_53[symmetric])
  then show "x / ?u \<le> of_int 9007199254740992" using u by (simp add: pos_divide_le_eq)
qed

lemma p2_split: "e - 52 \<le> k \<Longrightarrow>
  (2::rat) powi k = of_int (2 ^ nat (k - (e - 52))) * 2 powi (e - 52)"
proof -
  assume h: "e - 52 \<le> k"
  have "(2::rat) powi k = 2 powi ((k - (e - 52)) + (e - 52))" by simp
  also have "\<dots> = 2 powi (k - (e - 52)) * 2 powi (e - 52)" by (rule p2_add)
  also have "(2::rat) powi (k - (e - 52)) = of_int (2 ^ nat (k - (e - 52)))"
    using h by (intro p2_nat) simp
  finally show ?thesis .
qed

lemma small_below_binade:
  assumes "m \<le> 9007199254740992" "k + 53 \<le> e"
  shows "of_int m * (2::rat) powi k \<le> 2 powi e"
proof -
  have "of_int m * (2::rat) powi k \<le> 9007199254740992 * 2 powi k"
    using assms(1) p2_pos[of k] by (simp add: mult_right_mono)
  also have "\<dots> = 2 powi (k + 53)" using p2_add[of k 53] by simp
  also have "\<dots> \<le> 2 powi e" using assms(2) by (rule p2_mono)
  finally show ?thesis .
qed

lemma f64_le:
  assumes "0 < x" "x \<le> of_int m * 2 powi k" "m \<le> 9007199254740992"
  shows "f64 x \<le> of_int m * 2 powi k"
proof -
  let ?e = "expo x"
  let ?u = "(2::rat) powi (?e - 52)"
  let ?z = "x / ?u"
  have u: "0 < ?u" by (rule p2_pos)
  have f: "f64 x = of_int (rhe ?z) * ?u" by (rule f64_pos[OF assms(1)])
  show ?thesis
  proof (cases "?e - 52 \<le> k")
    case True
    let ?M = "m * 2 ^ nat (k - (?e - 52))"
    have y: "of_int m * (2::rat) powi k = of_int ?M * ?u"
      by (simp add: p2_split[OF True])
    have "?z \<le> of_int ?M" using assms(2) u unfolding y by (simp add: pos_divide_le_eq)
    then have "rhe ?z \<le> ?M" by (rule rhe_le)
    then have "(of_int (rhe ?z) :: rat) \<le> of_int ?M" by (simp only: of_int_le_iff)
    then have "of_int (rhe ?z) * ?u \<le> of_int ?M * ?u" using u by (simp add: mult_right_mono)
    then show ?thesis unfolding f y .
  next
    case False
    then have "k + 53 \<le> ?e" by simp
    then have "of_int m * (2::rat) powi k \<le> 2 powi ?e"
      by (rule small_below_binade[OF assms(3)])
    with assms(2) expo_bounds(1)[OF assms(1)] have x: "x = 2 powi ?e" "x = of_int m * 2 powi k"
      by simp_all
    have "?z = of_int 4503599627370496"
      using u p2_52[of ?e] x(1) by (simp add: field_simps)
    then have "rhe ?z \<le> 4503599627370496" by (simp add: rhe_le)
    then have "(of_int (rhe ?z) :: rat) \<le> of_int 4503599627370496" by (simp only: of_int_le_iff)
    then have "of_int (rhe ?z) * ?u \<le> 4503599627370496 * ?u" using u by (simp add: mult_right_mono)
    also have "\<dots> = x" using p2_52[of ?e] x(1) by simp
    finally show ?thesis unfolding f using x(2) by simp
  qed
qed

lemma f64_ge:
  assumes "0 < m" "of_int m * 2 powi k \<le> x" "m \<le> 9007199254740992"
  shows "of_int m * 2 powi k \<le> f64 x"
proof -
  have x0: "0 < x"
  proof -
    have "0 < of_int m * (2::rat) powi k" using assms(1) p2_pos[of k] by simp
    with assms(2) show ?thesis by simp
  qed
  let ?e = "expo x"
  let ?u = "(2::rat) powi (?e - 52)"
  let ?z = "x / ?u"
  have u: "0 < ?u" by (rule p2_pos)
  have f: "f64 x = of_int (rhe ?z) * ?u" by (rule f64_pos[OF x0])
  show ?thesis
  proof (cases "?e - 52 \<le> k")
    case True
    let ?M = "m * 2 ^ nat (k - (?e - 52))"
    have y: "of_int m * (2::rat) powi k = of_int ?M * ?u"
      by (simp add: p2_split[OF True])
    have "of_int ?M \<le> ?z" using assms(2) u unfolding y by (simp add: pos_le_divide_eq)
    then have "?M \<le> rhe ?z" by (rule rhe_ge)
    then have "(of_int ?M :: rat) \<le> of_int (rhe ?z)" by (simp only: of_int_le_iff)
    then have "of_int ?M * ?u \<le> of_int (rhe ?z) * ?u" using u by (simp add: mult_right_mono)
    then show ?thesis unfolding f y .
  next
    case False
    then have "k + 53 \<le> ?e" by simp
    then have "of_int m * (2::rat) powi k \<le> 2 powi ?e"
      by (rule small_below_binade[OF assms(3)])
    also have "\<dots> = 4503599627370496 * ?u" by (rule p2_52)
    also have "\<dots> \<le> of_int (rhe ?z) * ?u"
    proof -
      have "4503599627370496 \<le> rhe ?z" using scaled_range(1)[OF x0] by (rule rhe_ge)
      then have "(of_int 4503599627370496 :: rat) \<le> of_int (rhe ?z)" by (simp only: of_int_le_iff)
      then show ?thesis using u by (simp add: mult_right_mono)
    qed
    finally show ?thesis unfolding f .
  qed
qed

lemma f64_0 [simp]: "f64 0 = 0"
  by (simp add: f64_def)

lemma f64_int: "0 \<le> n \<Longrightarrow> n \<le> 9007199254740992 \<Longrightarrow> f64 (of_int n) = of_int n"
proof (cases "n = 0")
  case True
  then show ?thesis by simp
next
  case False
  assume "0 \<le> n" "n \<le> 9007199254740992"
  with False have n: "0 < n" by simp
  have "f64 (of_int n) \<le> of_int n * 2 powi 0"
    using n \<open>n \<le> 9007199254740992\<close> by (intro f64_le) simp_all
  moreover have "of_int n * 2 powi 0 \<le> f64 (of_int n)"
    using n \<open>n \<le> 9007199254740992\<close> by (intro f64_ge) simp_all
  ultimately show ?thesis by simp
qed

lemma f64_nonneg: "0 \<le> x \<Longrightarrow> 0 \<le> f64 x"
proof (cases "x = 0")
  case True
  then show ?thesis by simp
next
  case False
  assume "0 \<le> x"
  with False have x0: "0 < x" by simp
  have "4503599627370496 \<le> rhe (x / 2 powi (expo x - 52))"
    using scaled_range(1)[OF x0] by (rule rhe_ge)
  then have "(0::rat) \<le> of_int (rhe (x / 2 powi (expo x - 52)))" by simp
  moreover have "0 \<le> (2::rat) powi (expo x - 52)" using p2_pos[of "expo x - 52"] by simp
  ultimately show ?thesis unfolding f64_pos[OF x0] by (rule mult_nonneg_nonneg)
qed

lemma f64_le_int: "0 \<le> x \<Longrightarrow> x \<le> of_int n \<Longrightarrow> n \<le> 9007199254740992 \<Longrightarrow> f64 x \<le> of_int n"
proof (cases "x = 0")
  case True
  assume "0 \<le> x" "x \<le> of_int n"
  with True show ?thesis by simp
next
  case False
  assume "0 \<le> x" "x \<le> of_int n" "n \<le> 9007199254740992"
  with False have "0 < x" by simp
  then have "f64 x \<le> of_int n * 2 powi 0"
    using \<open>x \<le> of_int n\<close> \<open>n \<le> 9007199254740992\<close> by (intro f64_le) simp_all
  then show ?thesis by simp
qed

section \<open>When the progress bar panics\<close>

lemma f64_tot: "0 < tot \<Longrightarrow> tot \<le> 9007199254740992 \<Longrightarrow> f64 (of_int tot) = of_int tot"
  by (rule f64_int) simp_all

lemma quotient_le_1:
  assumes "0 \<le> cur" "cur \<le> tot" "0 < tot" "tot \<le> 9007199254740992"
  shows "0 \<le> f64 (f64 (of_int cur) / f64 (of_int tot))"
    and "f64 (f64 (of_int cur) / f64 (of_int tot)) \<le> 1"
proof -
  have c: "f64 (of_int cur) = of_int cur" using assms by (intro f64_int) simp_all
  have t: "f64 (of_int tot) = of_int tot" using assms by (intro f64_tot) simp_all
  have q0: "(0::rat) \<le> of_int cur / of_int tot" using assms by simp
  have q1: "(of_int cur :: rat) / of_int tot \<le> of_int 1" using assms by simp
  show "0 \<le> f64 (f64 (of_int cur) / f64 (of_int tot))"
    unfolding c t using q0 by (rule f64_nonneg)
  have "f64 (of_int cur / of_int tot) \<le> of_int 1"
    using q0 q1 by (rule f64_le_int) simp
  then show "f64 (f64 (of_int cur) / f64 (of_int tot)) \<le> 1" unfolding c t by simp
qed

lemma symCnt_le_20:
  assumes "0 \<le> cur" "cur \<le> tot" "0 < tot" "tot \<le> 9007199254740992"
  shows "0 \<le> \<lceil>f64 (20 * f64 (f64 (of_int cur) / f64 (of_int tot)))\<rceil>"
    and "\<lceil>f64 (20 * f64 (f64 (of_int cur) / f64 (of_int tot)))\<rceil> \<le> 20"
proof -
  let ?p = "f64 (f64 (of_int cur) / f64 (of_int tot))"
  note p = quotient_le_1[OF assms]
  have a: "0 \<le> 20 * ?p" using p(1) by simp
  have b: "20 * ?p \<le> of_int 20" using p(2) by simp
  have "0 \<le> f64 (20 * ?p)" using a by (rule f64_nonneg)
  then show "0 \<le> \<lceil>f64 (20 * ?p)\<rceil>" by simp
  have "f64 (20 * ?p) \<le> of_int 20" using a b by (rule f64_le_int) simp
  then show "\<lceil>f64 (20 * ?p)\<rceil> \<le> 20" by (simp add: ceiling_le_iff)
qed

lemma p2_m52: "(2::rat) powi (- 52) = 1 / 4503599627370496"
  by (simp add: power_int_minus field_simps)

lemma p2_m48: "(2::rat) powi (- 48) = 1 / 281474976710656"
  by (simp add: power_int_minus field_simps)

lemma p2_5: "(2::rat) powi 5 = 32"
  by simp

lemma quotient_gt_1:
  assumes "tot < cur" "0 < tot" "tot \<le> 4503599627370496" "cur \<le> 9007199254740992"
  shows "4503599627370497 / 4503599627370496 \<le> f64 (f64 (of_int cur) / f64 (of_int tot))"
    and "f64 (f64 (of_int cur) / f64 (of_int tot)) \<le> 9007199254740992"
proof -
  have c: "f64 (of_int cur) = of_int cur" using assms by (intro f64_int) simp_all
  have t: "f64 (of_int tot) = of_int tot" using assms by (intro f64_tot) simp_all
  have tr: "(0::rat) < of_int tot" using assms by simp
  have "4503599627370497 * tot \<le> 4503599627370496 * cur" using assms by simp
  then have "(of_int (4503599627370497 * tot) :: rat) \<le> of_int (4503599627370496 * cur)"
    by (simp only: of_int_le_iff)
  then have "(4503599627370497 :: rat) * of_int tot \<le> 4503599627370496 * of_int cur" by simp
  then have lo: "(4503599627370497 :: rat) / 4503599627370496 \<le> of_int cur / of_int tot"
    using tr by (simp add: field_simps)
  then have "of_int 4503599627370497 * 2 powi (- 52) \<le> (of_int cur :: rat) / of_int tot"
    by (simp add: p2_m52)
  then have "of_int 4503599627370497 * 2 powi (- 52) \<le> f64 (of_int cur / of_int tot)"
    by (intro f64_ge) simp_all
  then show "4503599627370497 / 4503599627370496 \<le> f64 (f64 (of_int cur) / f64 (of_int tot))"
    unfolding c t by (simp add: p2_m52)
  have "(1::rat) \<le> of_int tot" using assms by simp
  then have "(of_int cur :: rat) / of_int tot \<le> of_int cur"
    using assms tr by (simp add: field_simps mult_left_mono)
  also have "\<dots> \<le> of_int 9007199254740992" using assms by (simp only: of_int_le_iff)
  finally have hi: "(of_int cur :: rat) / of_int tot \<le> of_int 9007199254740992" .
  have "(0::rat) \<le> of_int cur / of_int tot" using assms by simp
  then have "f64 (of_int cur / of_int tot) \<le> of_int 9007199254740992"
    using hi by (rule f64_le_int) simp
  then show "f64 (f64 (of_int cur) / f64 (of_int tot)) \<le> 9007199254740992"
    unfolding c t by simp
qed

lemma symCnt_gt_20:
  assumes "tot < cur" "0 < tot" "tot \<le> 4503599627370496" "cur \<le> 9007199254740992"
  shows "21 \<le> \<lceil>f64 (20 * f64 (f64 (of_int cur) / f64 (of_int tot)))\<rceil>"
    and "\<lceil>f64 (20 * f64 (f64 (of_int cur) / f64 (of_int tot)))\<rceil> \<le> 288230376151711744"
proof -
  let ?p = "f64 (f64 (of_int cur) / f64 (of_int tot))"
  note p = quotient_gt_1[OF assms]
  have "of_int 5629499534213121 * 2 powi (- 48) \<le> 20 * ?p"
    using p(1) by (simp add: p2_m48)
  then have "of_int 5629499534213121 * 2 powi (- 48) \<le> f64 (20 * ?p)"
    by (intro f64_ge) simp_all
  then have "20 < f64 (20 * ?p)" by (simp add: p2_m48)
  then show "21 \<le> \<lceil>f64 (20 * ?p)\<rceil>" by (simp add: less_ceiling_iff)
  have pos: "0 < 20 * ?p" using p(1) by simp
  have "20 * ?p \<le> of_int 9007199254740992 * 2 powi 5" using p(2) by simp
  with pos have "f64 (20 * ?p) \<le> of_int 9007199254740992 * 2 powi 5"
    by (rule f64_le) simp
  then have "f64 (20 * ?p) \<le> of_int 288230376151711744" by simp
  then show "\<lceil>f64 (20 * ?p)\<rceil> \<le> 288230376151711744" by (simp only: ceiling_le_iff)
qed

lemma concat_replicate_char: "concat (replicate n [ch]) = replicate n ch"
  by (induction n) simp_all

lemma progressLine_ok:
  assumes "0 \<le> cur" "cur \<le> tot" "0 < tot" "tot \<le> 9007199254740992"
  shows "progressLine tot cur =
     Inr ([CHR 0x0D] @ ''through pg: '' @ decimal (nat cur) @ [CHR 0x09] @ ''[''
          @ replicate (nat \<lceil>f64 (20 * f64 (of_int cur / of_int tot))\<rceil>) CHR ''#''
          @ replicate (20 - nat \<lceil>f64 (20 * f64 (of_int cur / of_int tot))\<rceil>) CHR '' ''
          @ ''] '' @ sprintf_1f (f64 (f64 (of_int cur / of_int tot) * 100)) @ ''%'')"
proof -
  have c: "f64 (of_int cur) = of_int cur" using assms by (intro f64_int) simp_all
  have t: "f64 (of_int tot) = of_int tot" using assms by (intro f64_tot) simp_all
  note s = symCnt_le_20[OF assms, unfolded c t]
  let ?k = "\<lceil>f64 (20 * f64 (of_int cur / of_int tot))\<rceil>"
  have i: "is_int ?k" using s by (simp add: is_int_def)
  have w: "wrap (20 - ?k) = 20 - ?k" using s by (intro wrap_id; linarith)
  have n: "nat (20 - ?k) = 20 - nat ?k" using s by linarith
  show ?thesis
    using assms s i
    by (simp add: progressLine_def c t Let_def strings_Repeat_def w n concat_replicate_char
                  sprintf_d_def)
qed

lemma progressLine_panic:
  assumes "tot < cur" "0 < tot" "tot \<le> 4503599627370496" "cur \<le> 9007199254740992"
  shows "progressLine tot cur = Inl RepeatPanic"
proof -
  have c: "f64 (of_int cur) = of_int cur" using assms by (intro f64_int) simp_all
  have t: "f64 (of_int tot) = of_int tot" using assms by (intro f64_tot) simp_all
  note s = symCnt_gt_20[OF assms, unfolded c t]
  let ?k = "\<lceil>f64 (20 * f64 (of_int cur / of_int tot))\<rceil>"
  have i: "is_int ?k" using s by (simp add: is_int_def)
  have w: "wrap (20 - ?k) = 20 - ?k" using s by (intro wrap_id; linarith)
  show ?thesis
    using assms s i
    by (simp add: progressLine_def c t Let_def strings_Repeat_def w)
qed

lemma logProgress_cases:
  assumes "0 < tot" "tot \<le> 4503599627370496" "0 \<le> cur" "cur \<le> 9007199254740992"
  shows "logProgress tot cur w =
     (if cur \<le> tot then Inr (w\<lparr>progress := progress w @ [(tot, cur)]\<rparr>)
      else Inl (RepeatPanic, w))"
proof (cases "cur \<le> tot")
  case True
  then show ?thesis
    using progressLine_ok[OF assms(3) True assms(1)] assms(2) by (simp add: logProgress_def)
next
  case False
  then have "tot < cur" by simp
  from progressLine_panic[OF this assms(1) assms(2) assms(4)] False
  show ?thesis by (simp add: logProgress_def)
qed

section \<open>One chunk\<close>

lemma final_simps [simp]: "final (Inl (err, w)) = w" "final (Inr (count, w)) = w"
  by (simp_all add: final_def)

lemma logProgress_keeps:
  "logProgress tot cur w = Inl (err, w') \<Longrightarrow> w' = w"
  "logProgress tot cur w = Inr w' \<Longrightarrow> w' = w\<lparr>progress := progress w @ [(tot, cur)]\<rparr>"
  by (auto simp: logProgress_def split: sum.splits)

text \<open>One turn of the page loop, when no call for the page fails.\<close>

lemma pageLoop_turn:
  assumes "n < endp" "pageOk e n"
  shows "pageLoop e tot endp n count w =
     (if count mod 5 = 0 then
        (case logProgress tot count
                (w\<lparr>images := images w @ [n],
                   dir := AList.update (fileName n) (Encoded n)
                            (AList.update (fileName n) Created (dir w))\<rparr>) of
           Inl err \<Rightarrow> Inl err
         | Inr w4 \<Rightarrow> pageLoop e tot endp (n + 1) (count + 1) w4)
      else pageLoop e tot endp (n + 1) (count + 1)
             (w\<lparr>images := images w @ [n],
                dir := AList.update (fileName n) (Encoded n)
                         (AList.update (fileName n) Created (dir w))\<rparr>))"
  using assms by (subst pageLoop.simps) (simp add: pageOk_def Let_def)

lemma pageLoop_stop: "\<not> n < endp \<Longrightarrow> pageLoop e tot endp n count w = Inr (count, w)"
  by (subst pageLoop.simps) simp

lemma pageLoop_fail:
  assumes "n < endp" "\<not> pageOk e n"
  shows "pageLoop e tot endp n count w =
     (if renderFails e n then Inl (RenderError n, w\<lparr>images := images w @ [n]\<rparr>)
      else if createFails e (fileName n) then Inl (CreateError n, w\<lparr>images := images w @ [n]\<rparr>)
      else Inl (EncodeError n, w\<lparr>images := images w @ [n],
                 dir := AList.update (fileName n) Created (dir w)\<rparr>))"
  using assms by (subst pageLoop.simps) (auto simp: pageOk_def Let_def)

lemma pageLoop_count:
  "pageLoop e tot endp n count w = Inr (count', w') \<Longrightarrow> count' = count + max 0 (endp - n)"
proof (induction "nat (endp - n)" arbitrary: n count w rule: less_induct)
  case less
  show ?case
  proof (cases "n < endp")
    case False
    with less.prems show ?thesis by (simp add: pageLoop_stop)
  next
    case True
    have dec: "nat (endp - (n + 1)) < nat (endp - n)" using True by simp
    show ?thesis
    proof (cases "pageOk e n")
      case False
      with less.prems True show ?thesis by (simp add: pageLoop_fail split: if_splits)
    next
      case ok: True
      from less.prems obtain w'' where
        "pageLoop e tot endp (n + 1) (count + 1) w'' = Inr (count', w')"
        by (auto simp: pageLoop_turn[OF True ok] split: if_splits sum.splits)
      from less.hyps[OF dec this] True show ?thesis by simp
    qed
  qed
qed

lemma pageLoop_chunks: "chunks (final (pageLoop e tot endp n count w)) = chunks w"
proof (induction "nat (endp - n)" arbitrary: n count w rule: less_induct)
  case less
  show ?case
  proof (cases "n < endp")
    case False
    then show ?thesis by (simp add: pageLoop_stop)
  next
    case True
    have dec: "nat (endp - (n + 1)) < nat (endp - n)" using True by simp
    show ?thesis
    proof (cases "pageOk e n")
      case False
      with True show ?thesis by (simp add: pageLoop_fail)
    next
      case ok: True
      show ?thesis
        using less.hyps[OF dec]
        by (auto simp: pageLoop_turn[OF True ok] split: sum.splits
                 dest!: logProgress_keeps)
    qed
  qed
qed

lemma pageLoop_images:
  "set (images (final (pageLoop e tot endp n count w))) \<subseteq> set (images w) \<union> {n..<endp}"
proof (induction "nat (endp - n)" arbitrary: n count w rule: less_induct)
  case less
  show ?case
  proof (cases "n < endp")
    case False
    then show ?thesis by (simp add: pageLoop_stop)
  next
    case True
    have dec: "nat (endp - (n + 1)) < nat (endp - n)" using True by simp
    show ?thesis
    proof (cases "pageOk e n")
      case False
      with True show ?thesis by (auto simp: pageLoop_fail)
    next
      case ok: True
      let ?w3 = "w\<lparr>images := images w @ [n],
                   dir := AList.update (fileName n) (Encoded n)
                            (AList.update (fileName n) Created (dir w))\<rparr>"
      have sub: "set (images (final (pageLoop e tot endp (n + 1) (count + 1) w'')))
                 \<subseteq> set (images w) \<union> {n..<endp}" if "images w'' = images w @ [n]" for w''
      proof -
        have "set (images (final (pageLoop e tot endp (n + 1) (count + 1) w'')))
                 \<subseteq> set (images w'') \<union> {n + 1..<endp}" by (rule less.hyps[OF dec])
        then show ?thesis using that True by auto
      qed
      show ?thesis
      proof (cases "count mod 5 = 0")
        case False
        then show ?thesis using sub[of ?w3] by (simp add: pageLoop_turn[OF True ok])
      next
        case m5: True
        show ?thesis
        proof (cases "logProgress tot count ?w3")
          case (Inl p)
          obtain err w' where p: "p = (err, w')" by (cases p)
          from Inl p have "w' = ?w3" by (auto dest: logProgress_keeps)
          then show ?thesis using Inl p m5 True by (auto simp: pageLoop_turn[OF True ok])
        next
          case (Inr w4)
          then have "images w4 = images w @ [n]" by (auto dest: logProgress_keeps)
          from sub[OF this] show ?thesis using Inr m5 by (simp add: pageLoop_turn[OF True ok])
        qed
      qed
    qed
  qed
qed

lemma processChunk_count:
  "processChunk e start endp cnt tot w = Inr (count', w') \<Longrightarrow> count' = cnt + max 0 (endp - start)"
  by (auto simp: processChunk_def Let_def split: if_splits sum.splits dest: pageLoop_count)

lemma processChunk_chunks: "chunks (final (processChunk e start endp cnt tot w)) = chunks w"
proof (cases "openFails e (opens w)")
  case True
  then show ?thesis by (simp add: processChunk_def)
next
  case False
  let ?w0 = "w\<lparr>opens := opens w + 1\<rparr>"
  have pl: "chunks (final (pageLoop e tot endp start cnt ?w0)) = chunks w"
    by (simp add: pageLoop_chunks)
  show ?thesis
  proof (cases "pageLoop e tot endp start cnt ?w0")
    case (Inl p)
    then show ?thesis using False pl by (cases p) (simp add: processChunk_def)
  next
    case (Inr p)
    obtain count w1 where p: "p = (count, w1)" by (cases p)
    show ?thesis using False pl Inr p
      by (cases "logProgress tot count w1")
         (auto simp: processChunk_def dest!: logProgress_keeps)
  qed
qed

lemma processChunk_images:
  "set (images (final (processChunk e start endp cnt tot w))) \<subseteq> set (images w) \<union> {start..<endp}"
proof (cases "openFails e (opens w)")
  case True
  then show ?thesis by (simp add: processChunk_def)
next
  case False
  let ?w0 = "w\<lparr>opens := opens w + 1\<rparr>"
  have pl: "set (images (final (pageLoop e tot endp start cnt ?w0)))
            \<subseteq> set (images w) \<union> {start..<endp}"
    using pageLoop_images[of e tot endp start cnt ?w0] by simp
  show ?thesis
  proof (cases "pageLoop e tot endp start cnt ?w0")
    case (Inl p)
    then show ?thesis using False pl by (cases p) (simp add: processChunk_def)
  next
    case (Inr p)
    obtain count w1 where p: "p = (count, w1)" by (cases p)
    show ?thesis using False pl Inr p
      by (cases "logProgress tot count w1")
         (auto simp: processChunk_def dest!: logProgress_keeps)
  qed
qed

lemma pageLoop_world:
  assumes "0 \<le> a" "endp \<le> 4503599627370496" "0 < tot" "tot \<le> 4503599627370496"
    and "a \<le> n" "dir w = written a n" "images w = [a..n - 1]" "count = n - a"
  shows "case pageLoop e tot endp n count w of
           Inr (count', w') \<Rightarrow>
             dir w' = written a (max n endp) \<and> images w' = [a..max n endp - 1]
             \<and> count' = max n endp - a
             \<and> opens w' = opens w \<and> chunks w' = chunks w
             \<and> (\<forall>k. n \<le> k \<and> k < endp \<longrightarrow> pageOk e k)
         | Inl (err, w') \<Rightarrow>
             opens w' = opens w \<and> chunks w' = chunks w \<and> err \<noteq> OpenError
             \<and> (\<exists>k. n \<le> k \<and> k \<le> endp \<and> (\<forall>j. n \<le> j \<and> j < k \<longrightarrow> pageOk e j)
                    \<and> stoppedAt e a tot k err w')"
  using assms(5-)
proof (induction "nat (endp - n)" arbitrary: n count w rule: less_induct)
  case less
  show ?case
  proof (cases "n < endp")
    case False
    with less.prems show ?thesis by (auto simp: pageLoop_stop max_def)
  next
    case True
    have dec: "nat (endp - (n + 1)) < nat (endp - n)" using True by simp
    have n_small: "n < 9223372036854775807" using True assms(2) by simp
    have fresh: "fileName n \<notin> fst ` set (written a n)"
      using assms(1) less.prems(1) n_small by (intro fileName_fresh) auto
    have im1: "images w @ [n] = [a..n]"
      using less.prems by (simp add: upto_rec2)
    show ?thesis
    proof (cases "pageOk e n")
      case False
      define w1 where "w1 = w\<lparr>images := images w @ [n]\<rparr>"
      define w2 where "w2 = w\<lparr>images := images w @ [n],
                 dir := AList.update (fileName n) Created (dir w)\<rparr>"
      have d2: "dir w2 = written a n @ [(fileName n, Created)]"
        using fresh less.prems by (simp add: w2_def update_fresh)
      have r: "pageLoop e tot endp n count w =
         (if renderFails e n then Inl (RenderError n, w1)
          else if createFails e (fileName n) then Inl (CreateError n, w1)
          else Inl (EncodeError n, w2))"
        by (simp add: pageLoop_fail[OF True False] w1_def w2_def)
      have s: "stoppedAt e a tot n
          (if renderFails e n then RenderError n
           else if createFails e (fileName n) then CreateError n else EncodeError n)
          (if renderFails e n then w1
           else if createFails e (fileName n) then w1 else w2)"
        using False im1 d2 less.prems
        by (auto simp: stoppedAt_def pageOk_def w1_def w2_def)
      have "\<exists>k. n \<le> k \<and> k \<le> endp \<and> (\<forall>j. n \<le> j \<and> j < k \<longrightarrow> pageOk e j)
                    \<and> stoppedAt e a tot k
          (if renderFails e n then RenderError n
           else if createFails e (fileName n) then CreateError n else EncodeError n)
          (if renderFails e n then w1
           else if createFails e (fileName n) then w1 else w2)"
        using s True by (intro exI[of _ n]) auto
      then show ?thesis by (auto simp: r w1_def w2_def)
    next
      case ok: True
      define w3 where "w3 = w\<lparr>images := images w @ [n],
                   dir := AList.update (fileName n) (Encoded n)
                            (AList.update (fileName n) Created (dir w))\<rparr>"
      have d3: "dir w3 = written a (n + 1)"
        using fresh less.prems
        by (simp add: w3_def update_fresh update_same_last written_snoc)
      have i3: "images w3 = [a..(n + 1) - 1]" using im1 by (simp add: w3_def)
      have o3: "opens w3 = opens w" "chunks w3 = chunks w" by (simp_all add: w3_def)
      have mx: "max n endp = endp" "max (n + 1) endp = endp" using True by simp_all
      have turn: "pageLoop e tot endp n count w =
         (if count mod 5 = 0 then
            (case logProgress tot count w3 of
               Inl err \<Rightarrow> Inl err
             | Inr w4 \<Rightarrow> pageLoop e tot endp (n + 1) (count + 1) w4)
          else pageLoop e tot endp (n + 1) (count + 1) w3)"
        unfolding w3_def by (rule pageLoop_turn[OF True ok])
      text \<open>what the rest of the loop does, from any world that agrees with \<open>w3\<close>\<close>
      have rest: "case pageLoop e tot endp (n + 1) (count + 1) w'' of
           Inr (count', w') \<Rightarrow>
             dir w' = written a (max n endp) \<and> images w' = [a..max n endp - 1]
             \<and> count' = max n endp - a
             \<and> opens w' = opens w \<and> chunks w' = chunks w
             \<and> (\<forall>k. n \<le> k \<and> k < endp \<longrightarrow> pageOk e k)
         | Inl (err, w') \<Rightarrow>
             opens w' = opens w \<and> chunks w' = chunks w \<and> err \<noteq> OpenError
             \<and> (\<exists>k. n \<le> k \<and> k \<le> endp \<and> (\<forall>j. n \<le> j \<and> j < k \<longrightarrow> pageOk e j)
                    \<and> stoppedAt e a tot k err w')"
        if w'': "dir w'' = dir w3" "images w'' = images w3" "opens w'' = opens w3"
          "chunks w'' = chunks w3" for w''
      proof -
        have IH: "case pageLoop e tot endp (n + 1) (count + 1) w'' of
           Inr (count', w') \<Rightarrow>
             dir w' = written a (max (n + 1) endp) \<and> images w' = [a..max (n + 1) endp - 1]
             \<and> count' = max (n + 1) endp - a
             \<and> opens w' = opens w'' \<and> chunks w' = chunks w''
             \<and> (\<forall>k. n + 1 \<le> k \<and> k < endp \<longrightarrow> pageOk e k)
         | Inl (err, w') \<Rightarrow>
             opens w' = opens w'' \<and> chunks w' = chunks w'' \<and> err \<noteq> OpenError
             \<and> (\<exists>k. n + 1 \<le> k \<and> k \<le> endp \<and> (\<forall>j. n + 1 \<le> j \<and> j < k \<longrightarrow> pageOk e j)
                    \<and> stoppedAt e a tot k err w')"
          using less.prems w'' d3 i3
          by (intro less.hyps[OF dec]) simp_all
        show ?thesis
        proof (cases "pageLoop e tot endp (n + 1) (count + 1) w''")
          case (Inr p)
          obtain count' w' where p: "p = (count', w')" by (cases p)
          have "\<forall>k. n \<le> k \<and> k < endp \<longrightarrow> pageOk e k"
          proof (intro allI impI)
            fix k assume h: "n \<le> k \<and> k < endp"
            show "pageOk e k"
            proof (cases "k = n")
              case True then show ?thesis using ok by simp
            next
              case False then show ?thesis using h IH Inr p by auto
            qed
          qed
          with IH Inr p w'' o3 show ?thesis by (simp add: mx)
        next
          case (Inl p)
          obtain err w' where p: "p = (err, w')" by (cases p)
          from IH Inl p obtain k where k: "n + 1 \<le> k" "k \<le> endp"
            "\<forall>j. n + 1 \<le> j \<and> j < k \<longrightarrow> pageOk e j" "stoppedAt e a tot k err w'"
            and ow: "opens w' = opens w''" "chunks w' = chunks w''" "err \<noteq> OpenError"
            by auto
          have "\<forall>j. n \<le> j \<and> j < k \<longrightarrow> pageOk e j"
          proof (intro allI impI)
            fix j assume h: "n \<le> j \<and> j < k"
            show "pageOk e j"
            proof (cases "j = n")
              case True then show ?thesis using ok by simp
            next
              case False then show ?thesis using h k(3) by auto
            qed
          qed
          with k have "\<exists>k. n \<le> k \<and> k \<le> endp \<and> (\<forall>j. n \<le> j \<and> j < k \<longrightarrow> pageOk e j)
                    \<and> stoppedAt e a tot k err w'"
            by (intro exI[of _ k]) auto
          with Inl p ow w'' o3 show ?thesis by simp
        qed
      qed
      show ?thesis
      proof (cases "count mod 5 = 0")
        case False
        have "pageLoop e tot endp n count w = pageLoop e tot endp (n + 1) (count + 1) w3"
          using False by (simp add: turn)
        with rest[of w3] show ?thesis by simp
      next
        case m5: True
        have lp: "logProgress tot count w3 =
           (if count \<le> tot then Inr (w3\<lparr>progress := progress w3 @ [(tot, count)]\<rparr>)
            else Inl (RepeatPanic, w3))"
          using assms(1,2,3,4) less.prems True by (intro logProgress_cases) auto
        show ?thesis
        proof (cases "count \<le> tot")
          case le: True
          have "pageLoop e tot endp n count w = pageLoop e tot endp (n + 1) (count + 1)
                  (w3\<lparr>progress := progress w3 @ [(tot, count)]\<rparr>)"
            using m5 le lp by (simp add: turn)
          with rest[of "w3\<lparr>progress := progress w3 @ [(tot, count)]\<rparr>"]
          show ?thesis by simp
        next
          case gt: False
          have r: "pageLoop e tot endp n count w = Inl (RepeatPanic, w3)"
            using m5 gt lp by (simp add: turn)
          have "stoppedAt e a tot (n + 1) RepeatPanic w3"
            using d3 i3 gt less.prems by (simp add: stoppedAt_def)
          moreover have "\<forall>j. n \<le> j \<and> j < n + 1 \<longrightarrow> pageOk e j" using ok by auto
          ultimately have "\<exists>k. n \<le> k \<and> k \<le> endp \<and> (\<forall>j. n \<le> j \<and> j < k \<longrightarrow> pageOk e j)
                    \<and> stoppedAt e a tot k RepeatPanic w3"
            using True by (intro exI[of _ "n + 1"]) auto
          then show ?thesis using o3 by (simp add: r)
        qed
      qed
    qed
  qed
qed

lemma processChunk_world:
  assumes "0 \<le> a" "endp \<le> 4503599627370496" "0 < tot" "tot \<le> 4503599627370496"
    and "a \<le> start" "dir w = written a start" "images w = [a..start - 1]" "cnt = start - a"
    and "start \<le> 4503599627370496"
  shows "case processChunk e start endp cnt tot w of
           Inr (count', w') \<Rightarrow>
             \<not> openFails e (opens w) \<and> opens w' = opens w + 1 \<and> chunks w' = chunks w
             \<and> dir w' = written a (max start endp) \<and> images w' = [a..max start endp - 1]
             \<and> count' = max start endp - a \<and> count' \<le> tot
             \<and> (\<forall>k. start \<le> k \<and> k < endp \<longrightarrow> pageOk e k)
         | Inl (err, w') \<Rightarrow>
             opens w' = opens w + 1 \<and> chunks w' = chunks w
             \<and> (err \<noteq> OpenError \<longrightarrow> \<not> openFails e (opens w))
             \<and> (\<exists>k. start \<le> k \<and> k \<le> max start endp
                    \<and> (\<forall>j. start \<le> j \<and> j < k \<longrightarrow> pageOk e j) \<and> stoppedAt e a tot k err w')"
proof (cases "openFails e (opens w)")
  case True
  then have "processChunk e start endp cnt tot w = Inl (OpenError, w\<lparr>opens := opens w + 1\<rparr>)"
    by (simp add: processChunk_def)
  moreover have "stoppedAt e a tot start OpenError (w\<lparr>opens := opens w + 1\<rparr>)"
    using True assms by (simp add: stoppedAt_def)
  ultimately show ?thesis by auto
next
  case False
  define w0 where "w0 = w\<lparr>opens := opens w + 1\<rparr>"
  have pl: "case pageLoop e tot endp start cnt w0 of
           Inr (count', w') \<Rightarrow>
             dir w' = written a (max start endp) \<and> images w' = [a..max start endp - 1]
             \<and> count' = max start endp - a
             \<and> opens w' = opens w0 \<and> chunks w' = chunks w0
             \<and> (\<forall>k. start \<le> k \<and> k < endp \<longrightarrow> pageOk e k)
         | Inl (err, w') \<Rightarrow>
             opens w' = opens w0 \<and> chunks w' = chunks w0 \<and> err \<noteq> OpenError
             \<and> (\<exists>k. start \<le> k \<and> k \<le> endp \<and> (\<forall>j. start \<le> j \<and> j < k \<longrightarrow> pageOk e j)
                    \<and> stoppedAt e a tot k err w')"
    using assms(1-8) by (intro pageLoop_world) (simp_all add: w0_def)
  show ?thesis
  proof (cases "pageLoop e tot endp start cnt w0")
    case (Inl p)
    obtain err w' where p: "p = (err, w')" by (cases p)
    have "processChunk e start endp cnt tot w = Inl (err, w')"
      using False Inl p by (simp add: processChunk_def w0_def)
    moreover from pl Inl p have "opens w' = opens w + 1 \<and> chunks w' = chunks w
             \<and> (\<exists>k. start \<le> k \<and> k \<le> max start endp
                    \<and> (\<forall>j. start \<le> j \<and> j < k \<longrightarrow> pageOk e j) \<and> stoppedAt e a tot k err w')"
      by (auto simp: w0_def)
    ultimately show ?thesis using False by simp
  next
    case (Inr p)
    obtain count' w1 where p: "p = (count', w1)" by (cases p)
    define m2 where "m2 = max start endp"
    from pl Inr p have f: "dir w1 = written a m2" "images w1 = [a..m2 - 1]"
             "count' = m2 - a" "opens w1 = opens w + 1" "chunks w1 = chunks w"
             "\<forall>k. start \<le> k \<and> k < endp \<longrightarrow> pageOk e k"
      by (simp_all add: w0_def m2_def)
    have lp: "logProgress tot count' w1 =
           (if count' \<le> tot then Inr (w1\<lparr>progress := progress w1 @ [(tot, count')]\<rparr>)
            else Inl (RepeatPanic, w1))"
      using assms f(3) by (intro logProgress_cases) (auto simp: m2_def)
    show ?thesis
    proof (cases "count' \<le> tot")
      case True
      have "processChunk e start endp cnt tot w =
              Inr (count', w1\<lparr>progress := progress w1 @ [(tot, count')]\<rparr>)"
        using False Inr p lp True by (simp add: processChunk_def w0_def)
      then show ?thesis using f True False by (simp add: m2_def)
    next
      case gt: False
      have r: "processChunk e start endp cnt tot w = Inl (RepeatPanic, w1)"
        using False Inr p lp gt by (simp add: processChunk_def w0_def)
      have "stoppedAt e a tot m2 RepeatPanic w1"
        using f gt by (simp add: stoppedAt_def)
      moreover have "\<forall>j. start \<le> j \<and> j < m2 \<longrightarrow> pageOk e j" using f(6) by (auto simp: m2_def)
      ultimately have "\<exists>k. start \<le> k \<and> k \<le> max start endp
                    \<and> (\<forall>j. start \<le> j \<and> j < k \<longrightarrow> pageOk e j) \<and> stoppedAt e a tot k RepeatPanic w1"
        by (intro exI[of _ m2]) (auto simp: m2_def)
      then show ?thesis using f False by (simp add: r)
    qed
  qed
qed

section \<open>The chunk loop\<close>

lemma next_sched:
  assumes "0 \<le> curStart" "totalPages < 9223372036854775808" "0 < c" "c < 9223372036854775808"
    and "ep \<le> totalPages" "0 < remPages" "sched c totalPages ep remPages curStart curEnd"
  shows "wrap (remPages - wrap (curEnd - curStart)) < remPages"
    and "0 < wrap (remPages - wrap (curEnd - curStart)) \<Longrightarrow>
           curStart < curEnd \<and>
           sched c totalPages ep (wrap (remPages - wrap (curEnd - curStart))) curEnd
             (min (wrap (curEnd + c)) totalPages)"
    and "curEnd \<le> curStart \<or> curEnd \<le> totalPages"
    and "curEnd < 9223372036854775808"
proof -
  from assms(7) have r: "remPages = ep - curStart"
    and ab: "curStart < curEnd \<and> curEnd \<le> totalPages
      \<or> curEnd = curStart + c - 18446744073709551616 \<and> 9223372036854775808 \<le> curStart + c"
    by (simp_all add: sched_def)
  from ab show "curEnd \<le> curStart \<or> curEnd \<le> totalPages" using assms by auto
  from ab show "curEnd < 9223372036854775808" using assms r by auto
  from ab
  have both: "wrap (remPages - wrap (curEnd - curStart)) < remPages \<and>
    (0 < wrap (remPages - wrap (curEnd - curStart)) \<longrightarrow>
           curStart < curEnd \<and>
           sched c totalPages ep (wrap (remPages - wrap (curEnd - curStart))) curEnd
             (min (wrap (curEnd + c)) totalPages))"
  proof
    assume A: "curStart < curEnd \<and> curEnd \<le> totalPages"
    have w1: "wrap (curEnd - curStart) = curEnd - curStart"
      using A assms by (intro wrap_id) auto
    have w2: "wrap (remPages - (curEnd - curStart)) = ep - curEnd"
      using A assms r by (subst wrap_id) auto
    have lt: "ep - curEnd < remPages" using A r by simp
    have "0 < ep - curEnd \<Longrightarrow> sched c totalPages ep (ep - curEnd) curEnd (min (wrap (curEnd + c)) totalPages)"
    proof -
      assume pos: "0 < ep - curEnd"
      show ?thesis
      proof (cases "curEnd + c < 9223372036854775808")
        case True
        then have "wrap (curEnd + c) = curEnd + c" using A assms by (intro wrap_id) auto
        then show ?thesis using pos assms by (auto simp: sched_def)
      next
        case False
        then have "wrap (curEnd + c) = curEnd + c - 18446744073709551616"
          using A assms by (intro wrap_over) auto
        then show ?thesis using False A pos assms by (auto simp: sched_def)
      qed
    qed
    then show ?thesis using A by (simp add: w1 w2 lt)
  next
    assume B: "curEnd = curStart + c - 18446744073709551616 \<and> 9223372036854775808 \<le> curStart + c"
    have "curEnd - curStart = c - 18446744073709551616" using B by simp
    then have w1: "wrap (curEnd - curStart) = c"
      using assms by (simp add: wrap_under)
    have "wrap (remPages - c) = remPages - c"
      using B assms r by (intro wrap_id) auto
    moreover have "remPages - c < 0" using B assms r by auto
    ultimately show ?thesis using assms by (simp add: w1)
  qed
  from both show "wrap (remPages - wrap (curEnd - curStart)) < remPages" by simp
  from both show "0 < wrap (remPages - wrap (curEnd - curStart)) \<Longrightarrow>
           curStart < curEnd \<and>
           sched c totalPages ep (wrap (remPages - wrap (curEnd - curStart))) curEnd
             (min (wrap (curEnd + c)) totalPages)" by simp
qed

lemma reached_mono:
  assumes "reached e a t tot m2 r" "m1 \<le> m2" "m2 = m1 \<or> m2 \<le> t" "m2 = m1 \<or> m2 - a \<le> tot"
    and "\<forall>k. m1 \<le> k \<and> k < m2 \<longrightarrow> pageOk e k"
  shows "reached e a t tot m1 r"
proof (cases r)
  case (Inl p)
  obtain err w' where p: "p = (err, w')" by (cases p)
  from assms(1) Inl p obtain k where k: "m2 \<le> k" "k \<le> t" "\<forall>j. m2 \<le> j \<and> j < k \<longrightarrow> pageOk e j"
    "\<forall>i<opens w' - 1. \<not> openFails e i" "stoppedAt e a tot k err w'"
    by (auto simp: reached_def)
  have "\<forall>j. m1 \<le> j \<and> j < k \<longrightarrow> pageOk e j"
  proof (intro allI impI)
    fix j assume "m1 \<le> j \<and> j < k"
    then show "pageOk e j" using assms(5) k(3) by (cases "j < m2") auto
  qed
  with k assms(2) have "\<exists>k. m1 \<le> k \<and> k \<le> t \<and> (\<forall>j. m1 \<le> j \<and> j < k \<longrightarrow> pageOk e j)
             \<and> (\<forall>i<opens w' - 1. \<not> openFails e i) \<and> stoppedAt e a tot k err w'"
    by (intro exI[of _ k]) auto
  then show ?thesis using Inl p by (simp add: reached_def)
next
  case (Inr p)
  obtain count' w' where p: "p = (count', w')" by (cases p)
  from assms(1) Inr p obtain m' where m': "m2 \<le> m'" "m' = m2 \<or> m' \<le> t" "dir w' = written a m'"
    "images w' = [a..m' - 1]" "count' = m' - a" "m' = m2 \<or> count' \<le> tot"
    "\<forall>k. m2 \<le> k \<and> k < m' \<longrightarrow> pageOk e k"
    "\<forall>i<opens w'. \<not> openFails e i"
    by (auto simp: reached_def)
  have "\<forall>k. m1 \<le> k \<and> k < m' \<longrightarrow> pageOk e k"
  proof (intro allI impI)
    fix j assume "m1 \<le> j \<and> j < m'"
    then show "pageOk e j" using assms(5) m'(7) by (cases "j < m2") auto
  qed
  moreover have "m' = m1 \<or> m' \<le> t" using m'(2) assms(3) by auto
  moreover have "m' = m1 \<or> count' \<le> tot" using m'(5,6) assms(4) by auto
  ultimately have "\<exists>m'. m1 \<le> m' \<and> (m' = m1 \<or> m' \<le> t) \<and> dir w' = written a m'
             \<and> images w' = [a..m' - 1] \<and> count' = m' - a \<and> (m' = m1 \<or> count' \<le> tot)
             \<and> (\<forall>k. m1 \<le> k \<and> k < m' \<longrightarrow> pageOk e k)
             \<and> (\<forall>i<opens w'. \<not> openFails e i)"
    using m' assms(2) by (intro exI[of _ m']) auto
  then show ?thesis using Inr p by (simp add: reached_def)
qed

text \<open>One turn of the chunk loop.\<close>

lemma chunkLoop_turn:
  "0 < remPages \<Longrightarrow>
   chunkLoop e c totalPages tot remPages curStart curEnd count w =
     (case processChunk e curStart curEnd count tot
             (w\<lparr>chunks := chunks w @ [(curStart, curEnd)]\<rparr>) of
        Inl err \<Rightarrow> Some (Inl err)
      | Inr (count1, w1) \<Rightarrow>
          chunkLoop e c totalPages tot (wrap (remPages - wrap (curEnd - curStart))) curEnd
            (min (wrap (curEnd + c)) totalPages) count1 w1)"
  by (subst chunkLoop.simps) (auto simp: intMin2 split: sum.splits)

lemma chunkLoop_stop:
  "\<not> 0 < remPages \<Longrightarrow>
   chunkLoop e c totalPages tot remPages curStart curEnd count w = Some (Inr (count, w))"
  by (subst chunkLoop.simps) simp

lemma chunkLoop_terminates:
  assumes "totalPages < 9223372036854775808" "0 < c" "c < 9223372036854775808"
    and "ep \<le> totalPages"
    and "0 < remPages \<Longrightarrow> 0 \<le> curStart \<and> sched c totalPages ep remPages curStart curEnd"
  shows "\<exists>r. chunkLoop e c totalPages tot remPages curStart curEnd count w = Some r \<and>
     length (chunks (final r)) \<le> length (chunks w) + nat remPages"
  using assms(5)
proof (induction "nat remPages" arbitrary: remPages curStart curEnd count w rule: less_induct)
  case less
  show ?case
  proof (cases "0 < remPages")
    case False
    then show ?thesis by (simp add: chunkLoop_stop)
  next
    case True
    with less.prems have cs0: "0 \<le> curStart"
      and sc: "sched c totalPages ep remPages curStart curEnd" by simp_all
    define wc where "wc = w\<lparr>chunks := chunks w @ [(curStart, curEnd)]\<rparr>"
    define rem' where "rem' = wrap (remPages - wrap (curEnd - curStart))"
    define curEnd' where "curEnd' = min (wrap (curEnd + c)) totalPages"
    note ns = next_sched[OF cs0 assms(1) assms(2) assms(3) assms(4) True sc]
    note turn = chunkLoop_turn[OF True, of e c totalPages tot curStart curEnd count w,
        folded wc_def rem'_def curEnd'_def]
    have pcc: "chunks (final (processChunk e curStart curEnd count tot wc))
               = chunks w @ [(curStart, curEnd)]"
      by (simp add: processChunk_chunks wc_def)
    show ?thesis
    proof (cases "processChunk e curStart curEnd count tot wc")
      case (Inl p)
      obtain err w' where p: "p = (err, w')" by (cases p)
      from pcc Inl p have "chunks w' = chunks w @ [(curStart, curEnd)]" by simp
      then show ?thesis using True Inl p by (simp add: turn)
    next
      case (Inr p)
      obtain count1 w1 where p: "p = (count1, w1)" by (cases p)
      from pcc Inr p have cw: "chunks w1 = chunks w @ [(curStart, curEnd)]" by simp
      have dec: "nat rem' < nat remPages" using ns(1) True by (simp add: rem'_def)
      have nx: "0 < rem' \<Longrightarrow> 0 \<le> curEnd \<and> sched c totalPages ep rem' curEnd curEnd'"
        using ns(2) cs0 by (auto simp: rem'_def curEnd'_def)
      from less.hyps[OF dec nx, of count1 w1] obtain r where
        r: "chunkLoop e c totalPages tot rem' curEnd curEnd' count1 w1 = Some r"
           "length (chunks (final r)) \<le> length (chunks w1) + nat rem'"
        by blast
      have "length (chunks w1) = length (chunks w) + 1" using cw by simp
      with r(2) dec have "length (chunks (final r)) \<le> length (chunks w) + nat remPages"
        by linarith
      with r(1) show ?thesis using Inr p by (simp add: turn)
    qed
  qed
qed

lemma chunkLoop_images:
  assumes "totalPages < 9223372036854775808" "0 < c" "c < 9223372036854775808"
    and "ep \<le> totalPages"
    and "0 < remPages \<Longrightarrow> 0 \<le> curStart \<and> sched c totalPages ep remPages curStart curEnd"
    and "chunkLoop e c totalPages tot remPages curStart curEnd count w = Some r"
    and "\<forall>n \<in> set (images w). 0 \<le> n \<and> n < totalPages"
  shows "\<forall>n \<in> set (images (final r)). 0 \<le> n \<and> n < totalPages"
  using assms(5-)
proof (induction "nat remPages" arbitrary: remPages curStart curEnd count w rule: less_induct)
  case less
  show ?case
  proof (cases "0 < remPages")
    case False
    with less.prems(2,3) show ?thesis by (auto simp: chunkLoop_stop)
  next
    case True
    with less.prems have cs0: "0 \<le> curStart"
      and sc: "sched c totalPages ep remPages curStart curEnd" by simp_all
    define wc where "wc = w\<lparr>chunks := chunks w @ [(curStart, curEnd)]\<rparr>"
    define rem' where "rem' = wrap (remPages - wrap (curEnd - curStart))"
    define curEnd' where "curEnd' = min (wrap (curEnd + c)) totalPages"
    note ns = next_sched[OF cs0 assms(1) assms(2) assms(3) assms(4) True sc]
    note turn = chunkLoop_turn[OF True, of e c totalPages tot curStart curEnd count w,
        folded wc_def rem'_def curEnd'_def]
    have "set (images (final (processChunk e curStart curEnd count tot wc)))
            \<subseteq> set (images wc) \<union> {curStart..<curEnd}"
      by (rule processChunk_images)
    then have pci: "\<forall>n \<in> set (images (final (processChunk e curStart curEnd count tot wc))).
                0 \<le> n \<and> n < totalPages"
      using less.prems(3) cs0 ns(3) by (auto simp: wc_def)
    show ?thesis
    proof (cases "processChunk e curStart curEnd count tot wc")
      case (Inl p)
      obtain err w' where p: "p = (err, w')" by (cases p)
      from less.prems(2) Inl p have "r = Inl (err, w')" by (simp add: turn)
      with pci Inl p show ?thesis by simp
    next
      case (Inr p)
      obtain count1 w1 where p: "p = (count1, w1)" by (cases p)
      from less.prems(2) Inr p
      have nxt: "chunkLoop e c totalPages tot rem' curEnd curEnd' count1 w1 = Some r"
        by (simp add: turn)
      from pci Inr p have i1: "\<forall>n \<in> set (images w1). 0 \<le> n \<and> n < totalPages" by simp
      have dec: "nat rem' < nat remPages" using ns(1) True by (simp add: rem'_def)
      have nx: "0 < rem' \<Longrightarrow> 0 \<le> curEnd \<and> sched c totalPages ep rem' curEnd curEnd'"
        using ns(2) cs0 by (auto simp: rem'_def curEnd'_def)
      show ?thesis by (rule less.hyps[OF dec nx nxt i1])
    qed
  qed
qed

lemma chunkLoop_chunks:
  assumes "totalPages < 9223372036854775808" "0 < c" "c < 9223372036854775808"
    and "ep \<le> totalPages"
    and "0 < remPages \<Longrightarrow> 0 \<le> curStart \<and> sched c totalPages ep remPages curStart curEnd"
    and "chunkLoop e c totalPages tot remPages curStart curEnd count w = Some r"
  shows "\<forall>p \<in> set (chunks (final r)). p \<in> set (chunks w)
           \<or> (fst p < totalPages \<and> (fst p < snd p \<or> 9223372036854775808 \<le> fst p + c))"
  using assms(5-)
proof (induction "nat remPages" arbitrary: remPages curStart curEnd count w rule: less_induct)
  case less
  show ?case
  proof (cases "0 < remPages")
    case False
    with less.prems(2) show ?thesis by (auto simp: chunkLoop_stop)
  next
    case True
    with less.prems(1) have cs0: "0 \<le> curStart"
      and sc: "sched c totalPages ep remPages curStart curEnd" by simp_all
    define wc where "wc = w\<lparr>chunks := chunks w @ [(curStart, curEnd)]\<rparr>"
    define rem' where "rem' = wrap (remPages - wrap (curEnd - curStart))"
    define curEnd' where "curEnd' = min (wrap (curEnd + c)) totalPages"
    note ns = next_sched[OF cs0 assms(1) assms(2) assms(3) assms(4) True sc]
    note turn = chunkLoop_turn[OF True, of e c totalPages tot curStart curEnd count w,
        folded wc_def rem'_def curEnd'_def]
    have shape: "curStart < totalPages \<and> (curStart < curEnd \<or> 9223372036854775808 \<le> curStart + c)"
      using sc True assms(4) by (auto simp: sched_def)
    have pcc: "chunks (final (processChunk e curStart curEnd count tot wc))
               = chunks w @ [(curStart, curEnd)]"
      by (simp add: processChunk_chunks wc_def)
    show ?thesis
    proof (cases "processChunk e curStart curEnd count tot wc")
      case (Inl p)
      obtain err w' where p: "p = (err, w')" by (cases p)
      from less.prems(2) Inl p have r: "r = Inl (err, w')" by (simp add: turn)
      from pcc Inl p have "chunks w' = chunks w @ [(curStart, curEnd)]" by simp
      with r shape show ?thesis by auto
    next
      case (Inr p)
      obtain count1 w1 where p: "p = (count1, w1)" by (cases p)
      from less.prems(2) Inr p
      have nxt: "chunkLoop e c totalPages tot rem' curEnd curEnd' count1 w1 = Some r"
        by (simp add: turn)
      from pcc Inr p have cw: "chunks w1 = chunks w @ [(curStart, curEnd)]" by simp
      have dec: "nat rem' < nat remPages" using ns(1) True by (simp add: rem'_def)
      have nx: "0 < rem' \<Longrightarrow> 0 \<le> curEnd \<and> sched c totalPages ep rem' curEnd curEnd'"
        using ns(2) cs0 by (auto simp: rem'_def curEnd'_def)
      have "\<forall>p \<in> set (chunks (final r)). p \<in> set (chunks w1)
           \<or> (fst p < totalPages \<and> (fst p < snd p \<or> 9223372036854775808 \<le> fst p + c))"
        by (rule less.hyps[OF dec nx nxt])
      with cw shape show ?thesis by auto
    qed
  qed
qed

text \<open>
  When no chunk end can wrap around, a run that ends without an error has counted at
  least the pages that remained.
\<close>

lemma chunkLoop_covers:
  assumes "totalPages + c < 9223372036854775808" "0 < c" "0 \<le> totalPages" "ep \<le> totalPages"
    and "0 < remPages \<Longrightarrow> 0 \<le> curStart \<and> sched c totalPages ep remPages curStart curEnd"
    and "chunkLoop e c totalPages tot remPages curStart curEnd count w = Some (Inr (count', w'))"
  shows "count + remPages \<le> count'"
  using assms(5-)
proof (induction "nat remPages" arbitrary: remPages curStart curEnd count w rule: less_induct)
  case less
  have t: "totalPages < 9223372036854775808" and c: "c < 9223372036854775808"
    using assms(1,2,3) by simp_all
  show ?case
  proof (cases "0 < remPages")
    case False
    with less.prems(2) show ?thesis by (simp add: chunkLoop_stop)
  next
    case True
    with less.prems(1) have cs0: "0 \<le> curStart"
      and sc: "sched c totalPages ep remPages curStart curEnd" by simp_all
    define wc where "wc = w\<lparr>chunks := chunks w @ [(curStart, curEnd)]\<rparr>"
    define rem' where "rem' = wrap (remPages - wrap (curEnd - curStart))"
    define curEnd' where "curEnd' = min (wrap (curEnd + c)) totalPages"
    note ns = next_sched[OF cs0 t assms(2) c assms(4) True sc]
    note turn = chunkLoop_turn[OF True, of e c totalPages tot curStart curEnd count w,
        folded wc_def rem'_def curEnd'_def]
    have A: "curStart < curEnd" "curEnd \<le> totalPages" "remPages = ep - curStart"
      using sc True assms(1,4) by (auto simp: sched_def)
    have "wrap (curEnd - curStart) = curEnd - curStart"
      using A cs0 t by (intro wrap_id) auto
    moreover have "wrap (remPages - (curEnd - curStart)) = remPages - (curEnd - curStart)"
      using A cs0 t assms(4) True by (intro wrap_id) auto
    ultimately have r': "rem' = remPages - (curEnd - curStart)" by (simp add: rem'_def)
    from less.prems(2) obtain count1 w1 where
      pc: "processChunk e curStart curEnd count tot wc = Inr (count1, w1)"
      and nxt: "chunkLoop e c totalPages tot rem' curEnd curEnd' count1 w1 = Some (Inr (count', w'))"
      unfolding turn by (auto split: sum.splits)
    have c1: "count1 = count + (curEnd - curStart)"
      using processChunk_count[OF pc] A by simp
    have dec: "nat rem' < nat remPages" using ns(1) True by (simp add: rem'_def)
    have nx: "0 < rem' \<Longrightarrow> 0 \<le> curEnd \<and> sched c totalPages ep rem' curEnd curEnd'"
      using ns(2) cs0 by (auto simp: rem'_def curEnd'_def)
    have "count1 + rem' \<le> count'" by (rule less.hyps[OF dec nx nxt])
    then show ?thesis using c1 r' by simp
  qed
qed

lemma chunkLoop_world:
  assumes "0 \<le> a" "totalPages \<le> 4503599627370496" "0 < c" "c < 9223372036854775808"
    and "ep \<le> totalPages" "tot \<le> 4503599627370496"
    and "a \<le> m" "dir w = written a m" "images w = [a..m - 1]" "count = m - a"
    and "\<forall>i<opens w. \<not> openFails e i"
    and "0 < remPages \<Longrightarrow> 0 < tot \<and> m = curStart \<and> sched c totalPages ep remPages curStart curEnd"
  shows "\<exists>r. chunkLoop e c totalPages tot remPages curStart curEnd count w = Some r \<and>
     reached e a totalPages tot m r"
  using assms(7-)
proof (induction "nat remPages" arbitrary: remPages curStart curEnd count w m rule: less_induct)
  case less
  have t: "totalPages < 9223372036854775808" using assms(2) by simp
  show ?case
  proof (cases "0 < remPages")
    case False
    have "reached e a totalPages tot m (Inr (count, w))"
      using less.prems by (auto simp: reached_def)
    then show ?thesis using False by (simp add: chunkLoop_stop)
  next
    case True
    with less.prems have m: "m = curStart" and tot: "0 < tot"
      and sc: "sched c totalPages ep remPages curStart curEnd" by simp_all
    have cs0: "0 \<le> curStart" using assms(1) less.prems(1) m by simp
    define wc where "wc = w\<lparr>chunks := chunks w @ [(curStart, curEnd)]\<rparr>"
    define rem' where "rem' = wrap (remPages - wrap (curEnd - curStart))"
    define curEnd' where "curEnd' = min (wrap (curEnd + c)) totalPages"
    define m2 where "m2 = max curStart curEnd"
    note ns = next_sched[OF cs0 t assms(3) assms(4) assms(5) True sc]
    note turn = chunkLoop_turn[OF True, of e c totalPages tot curStart curEnd count w,
        folded wc_def rem'_def curEnd'_def]
    have csep: "curStart < ep" using sc True by (simp add: sched_def)
    have ce: "curEnd \<le> 4503599627370496" using ns(3) csep assms(2,5) by auto
    have cs: "curStart \<le> 4503599627370496" using csep assms(2,5) by simp
    have m2t: "m2 \<le> totalPages" using ns(3) csep assms(5) by (auto simp: m2_def)
    have pc: "case processChunk e curStart curEnd count tot wc of
           Inr (count', w') \<Rightarrow>
             \<not> openFails e (opens wc) \<and> opens w' = opens wc + 1 \<and> chunks w' = chunks wc
             \<and> dir w' = written a (max curStart curEnd) \<and> images w' = [a..max curStart curEnd - 1]
             \<and> count' = max curStart curEnd - a \<and> count' \<le> tot
             \<and> (\<forall>k. curStart \<le> k \<and> k < curEnd \<longrightarrow> pageOk e k)
         | Inl (err, w') \<Rightarrow>
             opens w' = opens wc + 1 \<and> chunks w' = chunks wc
             \<and> (err \<noteq> OpenError \<longrightarrow> \<not> openFails e (opens wc))
             \<and> (\<exists>k. curStart \<le> k \<and> k \<le> max curStart curEnd
                    \<and> (\<forall>j. curStart \<le> j \<and> j < k \<longrightarrow> pageOk e j) \<and> stoppedAt e a tot k err w')"
      using assms(1,6) less.prems m ce cs tot
      by (intro processChunk_world) (simp_all add: wc_def)
    show ?thesis
    proof (cases "processChunk e curStart curEnd count tot wc")
      case (Inl p)
      obtain err w' where p: "p = (err, w')" by (cases p)
      from pc Inl p obtain k where k: "curStart \<le> k" "k \<le> m2"
        "\<forall>j. curStart \<le> j \<and> j < k \<longrightarrow> pageOk e j" "stoppedAt e a tot k err w'"
        and ow: "opens w' = opens w + 1"
        by (auto simp: wc_def m2_def)
      have "\<forall>i<opens w' - 1. \<not> openFails e i" using ow less.prems(5) by simp
      with k m2t m have "reached e a totalPages tot m (Inl (err, w'))"
        unfolding reached_def by (auto intro!: exI[of _ k])
      then show ?thesis using Inl p by (simp add: turn)
    next
      case (Inr p)
      obtain count1 w1 where p: "p = (count1, w1)" by (cases p)
      from pc Inr p have f: "\<not> openFails e (opens w)" "opens w1 = opens w + 1"
        "dir w1 = written a m2" "images w1 = [a..m2 - 1]"
        "count1 = m2 - a" "count1 \<le> tot" "\<forall>k. curStart \<le> k \<and> k < curEnd \<longrightarrow> pageOk e k"
        by (simp_all add: wc_def m2_def)
      have op: "\<forall>i<opens w1. \<not> openFails e i"
      proof (intro allI impI)
        fix i assume "i < opens w1"
        then have "i < opens w \<or> i = opens w" using f(2) by auto
        then show "\<not> openFails e i" using less.prems(5) f(1) by auto
      qed
      have nx: "0 < rem' \<Longrightarrow> 0 < tot \<and> m2 = curEnd \<and> sched c totalPages ep rem' curEnd curEnd'"
        using ns(2) tot by (simp add: rem'_def curEnd'_def m2_def)
      have dec: "nat rem' < nat remPages" using ns(1) True by (simp add: rem'_def)
      have am2: "a \<le> m2" using less.prems(1) m by (simp add: m2_def)
      have "\<exists>r. chunkLoop e c totalPages tot rem' curEnd curEnd' count1 w1 = Some r \<and>
          reached e a totalPages tot m2 r"
        by (rule less.hyps[OF dec am2 f(3) f(4) f(5) op nx])
      then obtain r where r: "chunkLoop e c totalPages tot rem' curEnd curEnd' count1 w1 = Some r"
        "reached e a totalPages tot m2 r"
        by blast
      have "reached e a totalPages tot m r"
      proof (rule reached_mono[OF r(2)])
        show "m \<le> m2" using m by (simp add: m2_def)
        show "m2 = m \<or> m2 \<le> totalPages" using m2t by simp
        show "m2 = m \<or> m2 - a \<le> tot" using f(5,6) by simp
        show "\<forall>k. m \<le> k \<and> k < m2 \<longrightarrow> pageOk e k" using f(7) m by (auto simp: m2_def)
      qed
      with r(1) show ?thesis using Inr p by (simp add: turn)
    qed
  qed
qed

lemma startPage_range: "is_int s \<Longrightarrow> 0 \<le> startPage s e \<and> startPage s e < 9223372036854775807"
  by (auto simp: startPage_def is_int_def)

lemma endPage_range: "0 \<le> t \<Longrightarrow> 0 \<le> endPage e t \<and> endPage e t \<le> t"
  by (auto simp: endPage_def)

text \<open>The state in which \<^verbatim>\<open>main\<close> enters the chunk loop.\<close>

lemma main_enters:
  assumes "is_int s" "0 \<le> numPages e" "is_int (numPages e)" "\<not> openFails e 0"
  shows "main e s en c =
     chunkLoop e c (numPages e) (endPage en (numPages e) - startPage s en)
       (endPage en (numPages e) - startPage s en) (startPage s en)
       (min (endPage en (numPages e)) (min (wrap (startPage s en + c)) (numPages e))) 0
       (world0\<lparr>opens := 1\<rparr>)"
proof -
  have r: "wrap (endPage en (numPages e) - startPage s en) = endPage en (numPages e) - startPage s en"
    using startPage_range[OF assms(1), of en] endPage_range[OF assms(2), of en] assms(3)
    by (intro wrap_id) (auto simp: is_int_def)
  have "wrap (endPage en (numPages e)) = endPage en (numPages e)"
    using endPage_range[OF assms(2), of en] assms(3)
    by (intro wrap_id) (auto simp: is_int_def)
  then show ?thesis using assms(4) by (simp add: main_def Let_def r intMin3)
qed

lemma first_sched:
  assumes "is_int s" "is_int c" "0 < c" "0 \<le> t" "is_int t"
    and "0 < endPage en t - startPage s en"
  shows "sched c t (endPage en t) (endPage en t - startPage s en) (startPage s en)
           (min (endPage en t) (min (wrap (startPage s en + c)) t))"
proof (cases "startPage s en + c < 9223372036854775808")
  case True
  then have "wrap (startPage s en + c) = startPage s en + c"
    using startPage_range[OF assms(1), of en] assms by (intro wrap_id) (auto simp: is_int_def)
  then show ?thesis
    using assms endPage_range[OF assms(4), of en] by (auto simp: sched_def)
next
  case False
  then have "wrap (startPage s en + c) = startPage s en + c - 18446744073709551616"
    using startPage_range[OF assms(1), of en] assms by (intro wrap_over) (auto simp: is_int_def)
  then show ?thesis
    using False assms endPage_range[OF assms(4), of en] startPage_range[OF assms(1), of en]
    by (auto simp: sched_def is_int_def)
qed

lemma main_open_fails:
  "openFails e 0 \<Longrightarrow> main e s en c = Some (Inl (OpenError, world0\<lparr>opens := 1\<rparr>))"
  by (simp add: main_def)

text \<open>Every run returns, after no more chunks than pages remained at the start.\<close>

lemma main_terminates:
  assumes "is_int s" "is_int c" "0 < c" "0 \<le> numPages e" "is_int (numPages e)"
    and "\<not> openFails e 0"
  shows "\<exists>r. main e s en c = Some r \<and>
     length (chunks (final r)) \<le> nat (endPage en (numPages e) - startPage s en)"
proof -
  let ?sp = "startPage s en" and ?ep = "endPage en (numPages e)"
  let ?w = "world0\<lparr>opens := 1\<rparr>"
  have "\<exists>r. chunkLoop e c (numPages e) (?ep - ?sp) (?ep - ?sp) ?sp
           (min ?ep (min (wrap (?sp + c)) (numPages e))) 0 ?w = Some r \<and>
     length (chunks (final r)) \<le> length (chunks ?w) + nat (?ep - ?sp)"
  proof (rule chunkLoop_terminates[where ep = "?ep"])
    show "numPages e < 9223372036854775808" using assms(5) by (simp add: is_int_def)
    show "0 < c" by (rule assms(3))
    show "c < 9223372036854775808" using assms(2) by (simp add: is_int_def)
    show "?ep \<le> numPages e" using endPage_range[OF assms(4)] by simp
    show "0 \<le> ?sp \<and> sched c (numPages e) ?ep (?ep - ?sp) ?sp
            (min ?ep (min (wrap (?sp + c)) (numPages e)))" if "0 < ?ep - ?sp"
      using first_sched[OF assms(1) assms(2) assms(3) assms(4) assms(5) that]
        startPage_range[OF assms(1), of en] by simp
  qed
  then show ?thesis
    by (simp add: main_enters[OF assms(1) assms(4) assms(5) assms(6)] world0_def)
qed

text \<open>What a run leaves, when the page count is below \<open>2\<^sup>5\<^sup>2\<close>.\<close>

lemma main_reached:
  assumes "is_int s" "is_int c" "0 < c" "0 \<le> numPages e" "numPages e \<le> 4503599627370496"
    and "\<not> openFails e 0"
  shows "\<exists>r. main e s en c = Some r \<and>
     reached e (startPage s en) (numPages e) (endPage en (numPages e) - startPage s en)
       (startPage s en) r"
proof -
  let ?sp = "startPage s en" and ?ep = "endPage en (numPages e)"
  let ?w = "world0\<lparr>opens := 1\<rparr>"
  have it: "is_int (numPages e)" using assms(4,5) by (simp add: is_int_def)
  have sp: "0 \<le> ?sp" using startPage_range[OF assms(1)] by simp
  have ep: "?ep \<le> numPages e" using endPage_range[OF assms(4)] by simp
  have "\<exists>r. chunkLoop e c (numPages e) (?ep - ?sp) (?ep - ?sp) ?sp
           (min ?ep (min (wrap (?sp + c)) (numPages e))) 0 ?w = Some r \<and>
     reached e ?sp (numPages e) (?ep - ?sp) ?sp r"
  proof (rule chunkLoop_world[where ep = "?ep"])
    show "0 \<le> ?sp" by (rule sp)
    show "numPages e \<le> 4503599627370496" by (rule assms(5))
    show "0 < c" by (rule assms(3))
    show "c < 9223372036854775808" using assms(2) by (simp add: is_int_def)
    show "?ep \<le> numPages e" by (rule ep)
    show "?ep - ?sp \<le> 4503599627370496" using ep sp assms(5) by simp
    show "?sp \<le> ?sp" by simp
    show "dir ?w = written ?sp ?sp" by (simp add: world0_def written_def)
    show "images ?w = [?sp..?sp - 1]" by (simp add: world0_def)
    show "(0::int) = ?sp - ?sp" by simp
    show "\<forall>i<opens ?w. \<not> openFails e i" using assms(6) by (simp add: world0_def)
    show "0 < ?ep - ?sp \<and> ?sp = ?sp \<and> sched c (numPages e) ?ep (?ep - ?sp) ?sp
            (min ?ep (min (wrap (?sp + c)) (numPages e)))" if "0 < ?ep - ?sp"
      using first_sched[OF assms(1) assms(2) assms(3) assms(4) it that] that by simp
  qed
  then show ?thesis
    by (simp add: main_enters[OF assms(1) assms(4) it assms(6)])
qed


subsection \<open>The rounded bar width is the exact one\<close>

lemma rhe_err: "\<bar>of_int (rhe z) - z\<bar> \<le> 1 / 2"
proof -
  define d where "d = z - of_int \<lfloor>z\<rfloor>"
  have d: "0 \<le> d" "d < 1" unfolding d_def by linarith+
  have z: "z = of_int \<lfloor>z\<rfloor> + d" by (simp add: d_def)
  consider (lo) "d < 1 / 2" | (hi) "1 / 2 < d" | (mid) "d = 1 / 2" by linarith
  then show ?thesis
  proof cases
    case lo
    then have "rhe z = \<lfloor>z\<rfloor>" unfolding rhe_def Let_def d_def[symmetric] by simp
    then have "of_int (rhe z) - z = - d" by (simp add: d_def)
    then show ?thesis using d lo by simp
  next
    case hi
    then have "rhe z = \<lfloor>z\<rfloor> + 1" unfolding rhe_def Let_def d_def[symmetric] by simp
    then have "of_int (rhe z) - z = 1 - d" by (simp add: d_def)
    then show ?thesis using d hi by simp
  next
    case mid
    then have "rhe z = \<lfloor>z\<rfloor> \<or> rhe z = \<lfloor>z\<rfloor> + 1"
      unfolding rhe_def Let_def d_def[symmetric] by simp
    then have "of_int (rhe z) - z = - d \<or> of_int (rhe z) - z = 1 - d"
      by (auto simp: d_def)
    then show ?thesis using mid by auto
  qed
qed

lemma f64_rel:
  assumes "0 < x"
  shows "\<bar>f64 x - x\<bar> \<le> x / 9007199254740992"
proof -
  let ?u = "(2::rat) powi (expo x - 52)"
  let ?z = "x / ?u"
  have u: "0 < ?u" by (rule p2_pos)
  have x: "x = ?z * ?u" using u by simp
  have "f64 x - x = (of_int (rhe ?z) - ?z) * ?u"
    using u by (simp add: f64_pos[OF assms] algebra_simps)
  then have "\<bar>f64 x - x\<bar> = \<bar>of_int (rhe ?z) - ?z\<bar> * ?u"
    using u by (simp add: abs_mult)
  also have "\<dots> \<le> 1 / 2 * ?u" using rhe_err[of ?z] u by (intro mult_right_mono) simp_all
  also have "\<dots> = (4503599627370496 * ?u) / 9007199254740992" by simp
  also have "\<dots> \<le> x / 9007199254740992"
    using expo_bounds(1)[OF assms] by (simp add: p2_52[symmetric] divide_right_mono)
  finally show ?thesis .
qed

lemma twentieths:
  "f64 (20 * f64 (1 / 20)) = 1" "f64 (20 * f64 (2 / 20)) = 2" "f64 (20 * f64 (3 / 20)) = 3"
  "f64 (20 * f64 (4 / 20)) = 4" "f64 (20 * f64 (5 / 20)) = 5" "f64 (20 * f64 (6 / 20)) = 6"
  "f64 (20 * f64 (7 / 20)) = 7" "f64 (20 * f64 (8 / 20)) = 8" "f64 (20 * f64 (9 / 20)) = 9"
  "f64 (20 * f64 (10 / 20)) = 10" "f64 (20 * f64 (11 / 20)) = 11" "f64 (20 * f64 (12 / 20)) = 12"
  "f64 (20 * f64 (13 / 20)) = 13" "f64 (20 * f64 (14 / 20)) = 14" "f64 (20 * f64 (15 / 20)) = 15"
  "f64 (20 * f64 (16 / 20)) = 16" "f64 (20 * f64 (17 / 20)) = 17" "f64 (20 * f64 (18 / 20)) = 18"
  "f64 (20 * f64 (19 / 20)) = 19" "f64 (20 * f64 (20 / 20)) = 20"
  by code_simp+


lemma ceiling_bounds_int:
  fixes N T :: int
  assumes "0 < T" "\<not> T dvd N"
  shows "(of_int N :: rat) / of_int T \<le> of_int \<lceil>(of_int N :: rat) / of_int T\<rceil> - 1 / of_int T"
    and "of_int \<lceil>(of_int N :: rat) / of_int T\<rceil> - 1 + 1 / of_int T \<le> (of_int N :: rat) / of_int T"
proof -
  define K where "K = \<lceil>(of_int N :: rat) / of_int T\<rceil>"
  define t where "t = (of_int T :: rat)"
  define n where "n = (of_int N :: rat)"
  define k where "k = (of_int K :: rat)"
  have T: "0 < t" using assms(1) by (simp add: t_def)
  have "n / t \<le> k" unfolding n_def t_def k_def K_def by (rule le_of_int_ceiling)
  with T have "n \<le> k * t" by (simp only: pos_divide_le_eq)
  then have "(of_int N :: rat) \<le> of_int (K * T)" by (simp add: n_def k_def t_def)
  then have le: "N \<le> K * T" by (simp only: of_int_le_iff)
  have "N \<noteq> K * T"
  proof
    assume "N = K * T"
    then have "T dvd N" by (metis dvd_triv_right)
    with assms(2) show False by simp
  qed
  with le have "N + 1 \<le> K * T" by simp
  then have "(of_int (N + 1) :: rat) \<le> of_int (K * T)" by (simp only: of_int_le_iff)
  then have "n + 1 \<le> k * t" by (simp add: n_def k_def t_def)
  then have "(n + 1) / t \<le> k" using T by (simp only: pos_divide_le_eq)
  then have "n / t \<le> k - 1 / t" by (simp add: add_divide_distrib)
  then show "(of_int N :: rat) / of_int T \<le> of_int \<lceil>(of_int N :: rat) / of_int T\<rceil> - 1 / of_int T"
    by (simp only: n_def t_def k_def K_def)
  have "k - 1 < n / t" unfolding n_def t_def k_def K_def by linarith
  with T have "(k - 1) * t < n" by (simp only: pos_less_divide_eq)
  then have "(of_int ((K - 1) * T) :: rat) < of_int N" by (simp add: n_def k_def t_def)
  then have "(K - 1) * T < N" by (simp only: of_int_less_iff)
  then have "(K - 1) * T + 1 \<le> N" by simp
  then have "(of_int ((K - 1) * T + 1) :: rat) \<le> of_int N" by (simp only: of_int_le_iff)
  then have "(k - 1) * t + 1 \<le> n" by (simp add: n_def k_def t_def)
  then have "(k - 1) * t \<le> n - 1" by simp
  then have "k - 1 \<le> (n - 1) / t" using T by (simp only: pos_le_divide_eq)
  then have "k - 1 + 1 / t \<le> n / t" by (simp add: diff_divide_distrib)
  then show "of_int \<lceil>(of_int N :: rat) / of_int T\<rceil> - 1 + 1 / of_int T \<le> (of_int N :: rat) / of_int T"
    by (simp only: n_def t_def k_def K_def)
qed

lemma symCnt_exact:
  assumes "0 \<le> cur" "cur \<le> tot" "0 < tot" "tot \<le> 140737488355328"
  shows "\<lceil>f64 (20 * f64 (of_int cur / of_int tot))\<rceil> = \<lceil>(of_int (20 * cur) :: rat) / of_int tot\<rceil>"
proof (cases "cur = 0")
  case True
  then show ?thesis by simp
next
  case False
  with assms have cur: "0 < cur" by simp
  define T where "T = (of_int tot :: rat)"
  define q where "q = of_int cur / T"
  define x where "x = (of_int (20 * cur) :: rat) / T"
  define K where "K = \<lceil>x\<rceil>"
  have T: "0 < T" using assms(3) by (simp add: T_def)
  have q: "0 < q" "q \<le> 1" using cur assms T by (simp_all add: q_def T_def)
  have x: "x = 20 * q" by (simp add: x_def q_def)
  have K20: "K \<le> 20"
  proof -
    have "x \<le> of_int 20" using q(2) by (simp add: x)
    then show ?thesis unfolding K_def by (simp only: ceiling_le_iff)
  qed
  have K1: "1 \<le> K"
  proof -
    have "0 < x" using q(1) by (simp add: x)
    then show ?thesis unfolding K_def by (simp add: less_ceiling_iff)
  qed
  have goal: "\<lceil>f64 (20 * f64 q)\<rceil> = K"
  proof (cases "tot dvd 20 * cur")
    case True
    then obtain k where k: "20 * cur = tot * k" by (auto simp: dvd_def)
    have "x = of_int (tot * k) / T" unfolding x_def by (simp only: k)
    also have "\<dots> = of_int k" using T by (simp add: T_def)
    finally have xk: "x = of_int k" .
    then have Kk: "K = k" by (simp add: K_def)
    have qk: "q = of_int k / 20" using xk by (simp only: x)
    from K1 K20 Kk have "k = 1 \<or> k = 2 \<or> k = 3 \<or> k = 4 \<or> k = 5 \<or> k = 6 \<or> k = 7 \<or> k = 8
      \<or> k = 9 \<or> k = 10 \<or> k = 11 \<or> k = 12 \<or> k = 13 \<or> k = 14 \<or> k = 15 \<or> k = 16 \<or> k = 17
      \<or> k = 18 \<or> k = 19 \<or> k = 20" by arith
    then have "f64 (20 * f64 (of_int k / 20)) = of_int k"
      by (elim disjE) (simp_all only: twentieths of_int_numeral of_int_1)
    then have "f64 (20 * f64 q) = of_int K" by (simp only: qk Kk)
    then show ?thesis by simp
  next
    case False
    have cb: "x \<le> of_int K - 1 / T" "of_int K - 1 + 1 / T \<le> x"
      using ceiling_bounds_int[OF assms(3) False] by (simp_all only: x_def K_def T_def)
    have iT: "1 / 140737488355328 \<le> 1 / T"
    proof -
      have "(of_int tot :: rat) \<le> of_int 140737488355328" using assms(4) by (simp only: of_int_le_iff)
      then have "T \<le> 140737488355328" by (simp add: T_def)
      then show ?thesis using T by (simp add: field_simps)
    qed
    define p where "p = f64 q"
    have rel: "\<bar>p - q\<bar> \<le> q / 9007199254740992" unfolding p_def by (rule f64_rel[OF q(1)])
    have rel': "\<bar>p - q\<bar> \<le> 1 / 9007199254740992"
    proof -
      have "q / 9007199254740992 \<le> 1 / 9007199254740992" using q(2) by (simp add: divide_right_mono)
      with rel show ?thesis by linarith
    qed
    have p0: "0 \<le> 20 * p" using f64_nonneg[of q] q(1) by (simp add: p_def)
    have up: "20 * p \<le> of_int K"
    proof -
      have "20 * p \<le> x + 20 / 9007199254740992" using rel' unfolding x by linarith
      also have "\<dots> \<le> of_int K - 1 / T + 20 / 9007199254740992" using cb(1) by simp
      also have "\<dots> \<le> of_int K" using iT by simp
      finally show ?thesis .
    qed
    have m48: "of_int ((K - 1) * 281474976710656 + 1) * (2::rat) powi (- 48)
            = of_int K - 1 + 1 / 281474976710656"
      by (simp add: p2_m48 field_simps)
    have lo: "of_int ((K - 1) * 281474976710656 + 1) * 2 powi (- 48) \<le> 20 * p"
    proof -
      have "of_int K - 1 + 1 / 281474976710656 \<le> of_int K - 1 + 1 / T - 20 / 9007199254740992"
        using iT by simp
      also have "\<dots> \<le> x - 20 / 9007199254740992" using cb(2) by simp
      also have "\<dots> \<le> 20 * p" using rel' unfolding x by linarith
      finally show ?thesis by (simp only: m48)
    qed
    have "f64 (20 * p) \<le> of_int K" using p0 up K20 by (intro f64_le_int) simp_all
    then have c1: "\<lceil>f64 (20 * p)\<rceil> \<le> K" by (simp only: ceiling_le_iff)
    have "of_int ((K - 1) * 281474976710656 + 1) * 2 powi (- 48) \<le> f64 (20 * p)"
      using lo K1 K20 by (intro f64_ge) simp_all
    then have "of_int K - 1 + 1 / 281474976710656 \<le> f64 (20 * p)" by (simp only: m48)
    then have "of_int (K - 1) < f64 (20 * p)" by simp
    then have c2: "K - 1 < \<lceil>f64 (20 * p)\<rceil>" by (simp only: less_ceiling_iff)
    from c1 c2 show ?thesis by (simp add: p_def)
  qed
  then show ?thesis by (simp only: K_def x_def q_def T_def)
qed


section \<open>Whole runs\<close>

lemma main_images:
  assumes "is_int s" "is_int c" "0 < c" "0 \<le> numPages e" "is_int (numPages e)"
    and "main e s en c = Some r"
  shows "\<forall>n \<in> set (images (final r)). 0 \<le> n \<and> n < numPages e"
proof (cases "openFails e 0")
  case True
  with assms(6) show ?thesis by (auto simp: main_open_fails world0_def)
next
  case False
  let ?sp = "startPage s en" and ?ep = "endPage en (numPages e)"
  have sp: "0 \<le> ?sp" using startPage_range[OF assms(1)] by simp
  from assms(6) have run: "chunkLoop e c (numPages e) (?ep - ?sp) (?ep - ?sp) ?sp
       (min ?ep (min (wrap (?sp + c)) (numPages e))) 0 (world0\<lparr>opens := 1\<rparr>) = Some r"
    by (simp add: main_enters[OF assms(1) assms(4) assms(5) False])
  show ?thesis
  proof (rule chunkLoop_images[where ep = "?ep", OF _ assms(3) _ _ _ run])
    show "numPages e < 9223372036854775808" using assms(5) by (simp add: is_int_def)
    show "c < 9223372036854775808" using assms(2) by (simp add: is_int_def)
    show "?ep \<le> numPages e" using endPage_range[OF assms(4)] by simp
    show "0 \<le> ?sp \<and> sched c (numPages e) ?ep (?ep - ?sp) ?sp
            (min ?ep (min (wrap (?sp + c)) (numPages e)))" if "0 < ?ep - ?sp"
      using first_sched[OF assms(1) assms(2) assms(3) assms(4) assms(5) that] sp by simp
    show "\<forall>n \<in> set (images (world0\<lparr>opens := 1\<rparr>)). 0 \<le> n \<and> n < numPages e"
      by (simp add: world0_def)
  qed
qed

lemma chunks_nonempty:
  assumes "is_int s" "0 < c" "0 \<le> numPages e" "numPages e + c < 9223372036854775808"
    and "main e s en c = Some r"
  shows "\<forall>p \<in> set (chunks (final r)). fst p < snd p"
proof (cases "openFails e 0")
  case True
  with assms(5) show ?thesis by (auto simp: main_open_fails world0_def)
next
  case False
  let ?sp = "startPage s en" and ?ep = "endPage en (numPages e)"
  have ic: "is_int c" using assms(2,3,4) by (simp add: is_int_def)
  have it: "is_int (numPages e)" using assms(2,3,4) by (simp add: is_int_def)
  have sp: "0 \<le> ?sp" using startPage_range[OF assms(1)] by simp
  from assms(5) have run: "chunkLoop e c (numPages e) (?ep - ?sp) (?ep - ?sp) ?sp
       (min ?ep (min (wrap (?sp + c)) (numPages e))) 0 (world0\<lparr>opens := 1\<rparr>) = Some r"
    by (simp add: main_enters[OF assms(1) assms(3) it False])
  have "\<forall>p \<in> set (chunks (final r)). p \<in> set (chunks (world0\<lparr>opens := 1\<rparr>))
           \<or> (fst p < numPages e \<and> (fst p < snd p \<or> 9223372036854775808 \<le> fst p + c))"
  proof (rule chunkLoop_chunks[where ep = "?ep", OF _ assms(2) _ _ _ run])
    show "numPages e < 9223372036854775808" using it by (simp add: is_int_def)
    show "c < 9223372036854775808" using ic by (simp add: is_int_def)
    show "?ep \<le> numPages e" using endPage_range[OF assms(3)] by simp
    show "0 \<le> ?sp \<and> sched c (numPages e) ?ep (?ep - ?sp) ?sp
            (min ?ep (min (wrap (?sp + c)) (numPages e)))" if "0 < ?ep - ?sp"
      using first_sched[OF assms(1) ic assms(2) assms(3) it that] sp by simp
  qed
  then show ?thesis using assms(4) by (auto simp: world0_def)
qed

lemma main_count:
  assumes "is_int s" "0 < c" "0 \<le> numPages e" "numPages e \<le> 4503599627370496"
    and "numPages e + c < 9223372036854775808"
    and "main e s en c = Some (Inr (count, w))"
  shows "count = max 0 (endPage en (numPages e) - startPage s en)"
    and "images w = [startPage s en..startPage s en + count - 1]"
    and "dir w = written (startPage s en) (startPage s en + count)"
    and "startPage s en + count \<le> max (startPage s en) (numPages e)"
proof -
  let ?sp = "startPage s en" and ?ep = "endPage en (numPages e)"
  have sp: "0 \<le> ?sp" using startPage_range[OF assms(1)] by simp
  have ep: "?ep \<le> numPages e" using endPage_range[OF assms(3)] by simp
  have ic: "is_int c" using assms(2,3,5) by (simp add: is_int_def)
  have it: "is_int (numPages e)" using assms(3,4) by (simp add: is_int_def)
  have no: "\<not> openFails e 0"
  proof
    assume "openFails e 0"
    then have "main e s en c = Some (Inl (OpenError, world0\<lparr>opens := 1\<rparr>))"
      by (rule main_open_fails)
    with assms(6) show False by simp
  qed
  from assms(6) have run: "chunkLoop e c (numPages e) (?ep - ?sp) (?ep - ?sp) ?sp
       (min ?ep (min (wrap (?sp + c)) (numPages e))) 0 (world0\<lparr>opens := 1\<rparr>)
       = Some (Inr (count, w))"
    by (simp add: main_enters[OF assms(1) assms(3) it no])
  have lo: "0 + (?ep - ?sp) \<le> count"
  proof (rule chunkLoop_covers[where ep = "?ep", OF assms(5) assms(2) assms(3) ep _ run])
    show "0 \<le> ?sp \<and> sched c (numPages e) ?ep (?ep - ?sp) ?sp
            (min ?ep (min (wrap (?sp + c)) (numPages e)))" if "0 < ?ep - ?sp"
      using first_sched[OF assms(1) ic assms(2) assms(3) it that] sp by simp
  qed
  from main_reached[OF assms(1) ic assms(2) assms(3) assms(4) no, of en] assms(6)
  have "reached e ?sp (numPages e) (?ep - ?sp) ?sp (Inr (count, w))" by auto
  then obtain m where m: "?sp \<le> m" "m = ?sp \<or> m \<le> numPages e" "dir w = written ?sp m"
      "images w = [?sp..m - 1]" "count = m - ?sp" "m = ?sp \<or> count \<le> ?ep - ?sp"
    by (auto simp: reached_def)
  show "count = max 0 (?ep - ?sp)" using lo m(1,5,6) by auto
  show "images w = [?sp..?sp + count - 1]" using m(4,5) by simp
  show "dir w = written ?sp (?sp + count)" using m(3,5) by simp
  show "?sp + count \<le> max ?sp (numPages e)" using m(2,5) by auto
qed

section \<open>Some runs\<close>

lemma fileName_values:
  "fileName 0 = ''001.jpg''" "fileName 1 = ''002.jpg''" "fileName 2 = ''003.jpg''"
  "fileName 3 = ''004.jpg''" "fileName 4 = ''005.jpg''" "fileName 5 = ''006.jpg''"
  by code_simp+

lemmas run_simps = main_def world0_def startPage_def endPage_def wrap_def
  chunkLoop.simps processChunk_def pageLoop.simps logProgress_cases fileName_values Let_def

lemma run_two_chunks:
  "main (perfect 5) 0 (- 1) 3 = Some (Inr (5,
     \<lparr>dir = [(''001.jpg'', Encoded 0), (''002.jpg'', Encoded 1), (''003.jpg'', Encoded 2),
              (''004.jpg'', Encoded 3), (''005.jpg'', Encoded 4)],
       images = [0, 1, 2, 3, 4],
       progress = [(5, 0), (5, 3), (5, 5)], opens = 3,
       chunks = [(0, 3), (3, 5)]\<rparr>))"
  by (simp add: run_simps perfect_def)

lemma run_overshoot:
  "main (perfect 10) 1 5 3 = Some (Inl (RepeatPanic,
     \<lparr>dir = [(''001.jpg'', Encoded 0), (''002.jpg'', Encoded 1), (''003.jpg'', Encoded 2),
              (''004.jpg'', Encoded 3), (''005.jpg'', Encoded 4), (''006.jpg'', Encoded 5)],
       images = [0, 1, 2, 3, 4, 5],
       progress = [(5, 0), (5, 3), (5, 5)], opens = 3,
       chunks = [(0, 3), (3, 6)]\<rparr>))"
  by (simp add: run_simps perfect_def)

lemma run_encode_fails:
  "main (encodeFailsAt 3 1) 0 (- 1) 100 = Some (Inl (EncodeError 1,
     \<lparr>dir = [(''001.jpg'', Encoded 0), (''002.jpg'', Created)],
       images = [0, 1], progress = [(3, 0)], opens = 2, chunks = [(0, 3)]\<rparr>))"
  by (simp add: run_simps perfect_def encodeFailsAt_def)

lemma run_render_fails:
  "main (renderFailsAt 3 1) 0 (- 1) 100 = Some (Inl (RenderError 1,
     \<lparr>dir = [(''001.jpg'', Encoded 0)],
       images = [0, 1], progress = [(3, 0)], opens = 2, chunks = [(0, 3)]\<rparr>))"
  by (simp add: run_simps perfect_def renderFailsAt_def)

lemma run_wrapped:
  "main (perfect 10) 2 3 9223372036854775807 = Some (Inr (0,
     \<lparr>dir = [], images = [], progress = [(2, 0)], opens = 2,
       chunks = [(1, - 9223372036854775808)]\<rparr>))"
  by (simp add: run_simps perfect_def)

lemma run_negative_chunk:
  "main (renderFailsAt 10 (- 4611686018427387914)) 0 5 (- 4611686018427387914) =
     Some (Inl (RenderError (- 4611686018427387914),
       \<lparr>dir = [], images = [- 4611686018427387914], progress = [(5, 0)], opens = 3,
         chunks = [(0, - 4611686018427387914), (- 4611686018427387914, 10)]\<rparr>))"
  by (simp add: run_simps perfect_def renderFailsAt_def)

lemma run_beyond:
  "main (perfect 3) 5 10 100 = Some (Inr (0,
     \<lparr>dir = [], images = [], progress = [], opens = 1, chunks = []\<rparr>))"
  by (simp add: run_simps perfect_def)

lemma written_values:
  "written 0 1 = [(''001.jpg'', Encoded 0)]"
  "written 0 5 = [(''001.jpg'', Encoded 0), (''002.jpg'', Encoded 1), (''003.jpg'', Encoded 2),
              (''004.jpg'', Encoded 3), (''005.jpg'', Encoded 4)]"
  "written 0 6 = [(''001.jpg'', Encoded 0), (''002.jpg'', Encoded 1), (''003.jpg'', Encoded 2),
              (''004.jpg'', Encoded 3), (''005.jpg'', Encoded 4), (''006.jpg'', Encoded 5)]"
  by (simp_all add: written_def upto.simps fileName_values)

lemma percent_values:
  "sprintf_1f (f64 (f64 (5 / 10) * 100)) = ''50.0''"
  "decimal 5 = ''5''"
  by code_simp+


subsection \<open>The percentage shown\<close>

lemma percent_near:
  assumes "0 \<le> cur" "cur \<le> tot" "0 < tot"
  shows "0 \<le> f64 (f64 (of_int cur / of_int tot) * 100)"
    and "\<bar>(of_int (rhe (f64 (f64 (of_int cur / of_int tot) * 100) * 10)) :: rat) / 10
          - 100 * (of_int cur / of_int tot)\<bar> \<le> 1 / 20 + 1 / 35184372088832"
proof -
  define q where "q = (of_int cur :: rat) / of_int tot"
  define a where "a = f64 q"
  define p where "p = f64 (a * 100)"
  define d where "d = (of_int (rhe (p * 10)) :: rat)"
  have q: "0 \<le> q" "q \<le> 1" using assms by (simp_all add: q_def)
  have a0: "0 \<le> a" unfolding a_def by (rule f64_nonneg[OF q(1)])
  have aq: "\<bar>a - q\<bar> \<le> 1 / 9007199254740992"
  proof (cases "q = 0")
    case True
    then show ?thesis by (simp add: a_def)
  next
    case False
    with q have "0 < q" by simp
    from f64_rel[OF this] have "\<bar>a - q\<bar> \<le> q / 9007199254740992" by (simp add: a_def)
    moreover have "q / 9007199254740992 \<le> 1 / 9007199254740992"
      using q(2) by (simp add: divide_right_mono)
    ultimately show ?thesis by linarith
  qed
  have "a \<le> of_int 1" unfolding a_def using q by (intro f64_le_int) simp_all
  then have a1: "a \<le> 1" by simp
  have p0: "0 \<le> p" unfolding p_def using a0 by (intro f64_nonneg) simp
  have pa: "\<bar>p - a * 100\<bar> \<le> 100 / 9007199254740992"
  proof (cases "a = 0")
    case True
    then show ?thesis by (simp add: p_def)
  next
    case False
    with a0 have "0 < a * 100" by simp
    from f64_rel[OF this] have "\<bar>p - a * 100\<bar> \<le> a * 100 / 9007199254740992"
      by (simp add: p_def)
    moreover have "a * 100 / 9007199254740992 \<le> 100 / 9007199254740992"
      using a1 by (simp add: divide_right_mono)
    ultimately show ?thesis by linarith
  qed
  have dp: "\<bar>d - p * 10\<bar> \<le> 1 / 2" unfolding d_def by (rule rhe_err)
  have "\<bar>d / 10 - 100 * q\<bar> \<le> 1 / 20 + 1 / 35184372088832"
    using aq pa dp by linarith
  then show "\<bar>(of_int (rhe (f64 (f64 (of_int cur / of_int tot) * 100) * 10)) :: rat) / 10
          - 100 * (of_int cur / of_int tot)\<bar> \<le> 1 / 20 + 1 / 35184372088832"
    unfolding d_def p_def a_def q_def .
  show "0 \<le> f64 (f64 (of_int cur / of_int tot) * 100)"
    using p0 by (simp add: p_def a_def q_def)
qed

lemma tenths_eq:
  assumes "0 \<le> cur" "cur \<le> tot" "0 < tot" "tot \<le> 9007199254740992"
  shows "tenths tot cur = rhe (f64 (f64 (of_int cur / of_int tot) * 100) * 10)"
proof -
  have c: "f64 (of_int cur) = of_int cur" using assms by (intro f64_int) simp_all
  have t: "f64 (of_int tot) = of_int tot" using assms by (intro f64_tot) simp_all
  show ?thesis by (simp add: tenths_def c t)
qed

lemma sprintf_1f_tenths:
  assumes "0 \<le> cur" "cur \<le> tot" "0 < tot" "tot \<le> 9007199254740992"
  shows "sprintf_1f (f64 (f64 (of_int cur / of_int tot) * 100)) =
     decimal (nat (tenths tot cur div 10)) @ ''.'' @ [digit (nat (tenths tot cur mod 10))]"
proof -
  note p = percent_near(1)[OF assms(1,2,3)]
  then have "\<not> f64 (f64 (of_int cur / of_int tot) * 100) < 0" by simp
  then show ?thesis using p by (simp add: sprintf_1f_def tenths_eq[OF assms] Let_def)
qed

lemma bar_values:
  "tenths 10 5 = 500" "decimal 5 = ''5''" "decimal 50 = ''50''"
  "replicate 10 CHR ''#'' = ''##########''" "replicate 10 CHR '' '' = ''          ''"
  "digit 0 = CHR ''0''"
  by code_simp+


section \<open>Bounds resolution\<close>

text \<open>
  C2, as the spec states it: for every start flag, end flag and page count
  \<open>totalPages \<ge> 0\<close> the resolved range satisfies
  \<open>0 \<le> startPage \<le> endPage \<le> totalPages\<close>.  This fails for a start flag beyond the
  document: with \<^verbatim>\<open>-s 5 -e 10\<close> on a document of 3 pages the range begins at 4 and ends
  at 3.
\<close>

theorem range_invariant_counterexample:
  "(0::int) \<le> 3 \<and> startPage 5 10 = 4 \<and> endPage 10 3 = 3 \<and> \<not> startPage 5 10 \<le> endPage 10 3"
  by (simp add: startPage_def endPage_def)

text \<open>
  C2, amended: for every start flag \<open>s\<close>, end flag \<open>e\<close> and page count \<open>t \<ge> 0\<close>
  the resolved range satisfies \<open>0 \<le> startPage\<close> and \<open>0 \<le> endPage \<le> t\<close>, and
  \<open>startPage \<le> endPage\<close> holds exactly when it is not the case that the start flag is
  honoured (\<open>0 < s \<le> e\<close>) and lies beyond \<open>t + 1\<close>.
\<close>

theorem range_invariant_amended:
  "0 \<le> t \<Longrightarrow>
     0 \<le> startPage s e \<and> 0 \<le> endPage e t \<and> endPage e t \<le> t \<and>
     (startPage s e \<le> endPage e t) = (\<not> (0 < s \<and> s \<le> e \<and> t + 1 < s))"
  by (auto simp: startPage_def endPage_def)

theorem range_invariant_amended_witness:
  "(0::int) \<le> 10 \<and> 0 \<le> startPage 3 7 \<and> 0 \<le> endPage 7 10 \<and> endPage 7 10 \<le> 10 \<and>
     startPage 3 7 \<le> endPage 7 10 \<and> startPage 3 7 = 2 \<and> endPage 7 10 = 7"
proof -
  have h: "(0::int) \<le> 10" by simp
  show ?thesis using h range_invariant_amended[OF h, of 3 7]
    by (simp add: startPage_def endPage_def)
qed

text \<open>
  C5: for every start flag \<open>s > 0\<close> with \<open>s\<close> above the end flag, the range begins at
  page 0; in particular, when the end flag is unset (\<open>-1\<close>), a positive start flag is
  not honoured.
\<close>

theorem startPage_not_honoured:
  "0 < s \<Longrightarrow> e < s \<Longrightarrow> startPage s e = 0 \<and> startPage s (- 1) = 0"
  by (simp add: startPage_def)

theorem startPage_not_honoured_witness:
  "(0::int) < 4 \<and> (2::int) < 4 \<and> startPage 4 2 = 0 \<and> startPage 4 (- 1) = 0"
proof -
  have h1: "(0::int) < 4" and h2: "(2::int) < 4" by simp_all
  show ?thesis using h1 h2 startPage_not_honoured[OF h1 h2] by simp
qed

text \<open>
  C6: for every page count \<open>t \<ge> 0\<close>, the end flag \<open>-1\<close> and every end flag above
  \<open>t\<close> resolve to \<open>endPage = t\<close>, an end flag \<open>0 \<le> e \<le> t\<close> is left as it is, and
  resolving a resolved end page again does not change it.
\<close>

theorem endPage_clamp:
  "0 \<le> t \<Longrightarrow>
     endPage (- 1) t = t \<and> (t < e \<longrightarrow> endPage e t = t) \<and>
     (0 \<le> e \<and> e \<le> t \<longrightarrow> endPage e t = e) \<and>
     endPage (endPage e t) t = endPage e t"
  by (auto simp: endPage_def)

theorem endPage_clamp_witness:
  "(0::int) \<le> 7 \<and> endPage (- 1) 7 = 7 \<and> (7::int) < 12 \<and> endPage 12 7 = 7 \<and>
     endPage (endPage 12 7) 7 = endPage 12 7 \<and> endPage 5 7 = 5"
proof -
  have h: "(0::int) \<le> 7" by simp
  show ?thesis using h endPage_clamp[OF h, of 12] endPage_clamp[OF h, of 5]
    by (simp add: endPage_def)
qed

section \<open>Empty ranges\<close>

text \<open>
  C8: when the resolved range has \<open>endPage \<le> startPage\<close> (as for a document of no
  pages), the run ends without an error, the counter at 0: no chunk is processed, no page
  is passed to the renderer, no file is written, and \<^verbatim>\<open>logProgress\<close> is never called.
  The only renderer opened is the one that \<^verbatim>\<open>main\<close> opens for the page count.
\<close>

theorem empty_range_run:
  assumes "is_int s" "0 \<le> numPages e" "\<not> openFails e 0"
    and "endPage en (numPages e) \<le> startPage s en"
  shows "main e s en c =
     Some (Inr (0, \<lparr>dir = [], images = [], progress = [], opens = 1, chunks = []\<rparr>))"
proof -
  have "wrap (endPage en (numPages e) - startPage s en) = endPage en (numPages e) - startPage s en"
    using startPage_range[OF assms(1), of en] endPage_range[OF assms(2), of en] assms(4)
    by (intro wrap_id) auto
  then show ?thesis
    using assms(3,4)
    by (simp add: main_def Let_def intMin3 world0_def chunkLoop.simps)
qed

theorem empty_range_run_witness:
  "is_int 0 \<and> 0 \<le> numPages (perfect 0) \<and> \<not> openFails (perfect 0) 0 \<and>
   endPage (- 1) (numPages (perfect 0)) \<le> startPage 0 (- 1) \<and>
   main (perfect 0) 0 (- 1) 100 =
     Some (Inr (0, \<lparr>dir = [], images = [], progress = [], opens = 1, chunks = []\<rparr>))"
proof -
  have h1: "is_int 0" by (simp add: is_int_def)
  have h2: "0 \<le> numPages (perfect 0)" by (simp add: perfect_def)
  have h3: "\<not> openFails (perfect 0) 0" by (simp add: perfect_def)
  have h4: "endPage (- 1) (numPages (perfect 0)) \<le> startPage 0 (- 1)"
    by (simp add: perfect_def endPage_def startPage_def)
  show ?thesis using h1 h2 h3 h4 empty_range_run[OF h1 h2 h3 h4, of 100] by simp
qed

section \<open>Termination of the chunk loop\<close>

text \<open>
  C4 gives as the reason of termination that every iteration with pages remaining
  processes at least one page.  With \<^verbatim>\<open>-s 2 -e 3 -c 9223372036854775807\<close> on a
  document of 10 pages the range is \<open>[1, 3)\<close> and two pages remain, but the sum
  \<^verbatim>\<open>startPage+*chunkSizeF\<close> wraps around: the only chunk is
  \<open>(1, -9223372036854775808)\<close>, no page is passed to the renderer and no file is
  written, and the run ends without an error.
\<close>

theorem empty_chunk_on_wrap:
  "startPage 2 3 = 1 \<and> endPage 3 (numPages (perfect 10)) = 3
   \<and> main (perfect 10) 2 3 9223372036854775807 = Some (Inr (0,
     \<lparr>dir = [], images = [], progress = [(2, 0)], opens = 2,
       chunks = [(1, - 9223372036854775808)]\<rparr>))"
  by (simp add: run_wrapped) (simp add: startPage_def endPage_def perfect_def)

text \<open>
  C4: for every start and end flag, every chunk size \<open>c > 0\<close> and every page count
  \<open>numPages e \<ge> 0\<close>, whatever the renderer, the encoder and the file system answer,
  the chunk loop comes to an end: the run returns a result.  The number of chunks it has
  processed is at most the number of pages that remained when the loop began, since the
  count of remaining pages gets smaller with every chunk; and as long as
  \<open>numPages e + c\<close> fits a machine integer, every chunk it has processed holds at
  least one page.
\<close>

theorem chunk_loop_terminates:
  assumes "is_int s" "is_int c" "0 < c" "0 \<le> numPages e" "is_int (numPages e)"
  shows "\<exists>r. main e s en c = Some r \<and>
           length (chunks (final r)) \<le> nat (endPage en (numPages e) - startPage s en) \<and>
           (numPages e + c < 9223372036854775808 \<longrightarrow>
              (\<forall>p \<in> set (chunks (final r)). fst p < snd p))"
proof -
  have "\<exists>r. main e s en c = Some r \<and>
           length (chunks (final r)) \<le> nat (endPage en (numPages e) - startPage s en)"
  proof (cases "openFails e 0")
    case True
    then show ?thesis by (simp add: main_open_fails world0_def)
  next
    case False
    from main_terminates[OF assms False, of en] show ?thesis .
  qed
  then obtain r where r: "main e s en c = Some r"
    "length (chunks (final r)) \<le> nat (endPage en (numPages e) - startPage s en)"
    by blast
  have "\<forall>p \<in> set (chunks (final r)). fst p < snd p"
    if "numPages e + c < 9223372036854775808"
    by (rule chunks_nonempty[OF assms(1) assms(3) assms(4) that r(1)])
  with r show ?thesis by blast
qed

theorem chunk_loop_terminates_witness:
  "is_int 0 \<and> is_int 3 \<and> (0::int) < 3 \<and> 0 \<le> numPages (perfect 5) \<and> is_int (numPages (perfect 5))
   \<and> numPages (perfect 5) + 3 < 9223372036854775808
   \<and> (\<exists>r. main (perfect 5) 0 (- 1) 3 = Some r \<and>
           length (chunks (final r)) \<le> nat (endPage (- 1) (numPages (perfect 5)) - startPage 0 (- 1))
           \<and> (\<forall>p \<in> set (chunks (final r)). fst p < snd p))"
proof -
  have h1: "is_int 0" and h2: "is_int 3" and h3: "(0::int) < 3"
    and h4: "0 \<le> numPages (perfect 5)" and h5: "is_int (numPages (perfect 5))"
    and h6: "numPages (perfect 5) + 3 < 9223372036854775808"
    by (simp_all add: is_int_def perfect_def)
  from chunk_loop_terminates[OF h1 h2 h3 h4 h5, of "- 1"] h6
  have "\<exists>r. main (perfect 5) 0 (- 1) 3 = Some r \<and>
           length (chunks (final r)) \<le> nat (endPage (- 1) (numPages (perfect 5)) - startPage 0 (- 1))
           \<and> (\<forall>p \<in> set (chunks (final r)). fst p < snd p)"
    by blast
  with h1 h2 h3 h4 h5 h6 show ?thesis by simp
qed

section \<open>Pages passed to the renderer\<close>

text \<open>
  C10, as stated, holds of every run.  The code does not check the chunk size, and with a
  negative one the claim fails: with \<^verbatim>\<open>-e 5 -c -4611686018427387914\<close> on a document
  of 10 pages the first chunk, \<open>(0, c)\<close>, is empty, \<open>5 - c\<close> pages remain, the
  sum \<^verbatim>\<open>curEnd+*chunkSizeF\<close> wraps around to a number above 10, and the second chunk
  is \<open>(c, 10)\<close>: its first call of \<^verbatim>\<open>doc.Image\<close> is for the page index
  \<open>-4611686018427387914\<close>.  (Here the renderer answers that call with an error.)
\<close>

theorem render_negative_counterexample:
  "0 \<le> numPages (renderFailsAt 10 (- 4611686018427387914))
   \<and> main (renderFailsAt 10 (- 4611686018427387914)) 0 5 (- 4611686018427387914) =
     Some (Inl (RenderError (- 4611686018427387914),
       \<lparr>dir = [], images = [- 4611686018427387914], progress = [(5, 0)], opens = 3,
         chunks = [(0, - 4611686018427387914), (- 4611686018427387914, 10)]\<rparr>))
   \<and> \<not> (0::int) \<le> - 4611686018427387914"
  by (simp add: run_negative_chunk) (simp add: renderFailsAt_def perfect_def)

text \<open>
  C10, amended: in every run with a chunk size \<open>c > 0\<close>, every page index passed to
  \<^verbatim>\<open>doc.Image\<close> lies in \<open>[0, numPages e)\<close>, whether the run ends with or
  without an error, and also when the chunk loop goes beyond the end page.
\<close>

theorem render_in_range:
  assumes "is_int s" "is_int c" "0 < c" "0 \<le> numPages e" "is_int (numPages e)"
  shows "\<exists>r. main e s en c = Some r \<and>
           (\<forall>n \<in> set (images (final r)). 0 \<le> n \<and> n < numPages e)"
proof (cases "openFails e 0")
  case True
  then show ?thesis by (simp add: main_open_fails world0_def)
next
  case False
  from main_terminates[OF assms False, of en] obtain r where r: "main e s en c = Some r"
    by blast
  from main_images[OF assms r] r show ?thesis by blast
qed

theorem render_in_range_witness:
  "is_int 1 \<and> is_int 3 \<and> (0::int) < 3 \<and> 0 \<le> numPages (perfect 10) \<and> is_int (numPages (perfect 10))
   \<and> (\<exists>r. main (perfect 10) 1 5 3 = Some r \<and>
           (\<forall>n \<in> set (images (final r)). 0 \<le> n \<and> n < numPages (perfect 10)))"
proof -
  have h1: "is_int 1" and h2: "is_int 3" and h3: "(0::int) < 3"
    and h4: "0 \<le> numPages (perfect 10)" and h5: "is_int (numPages (perfect 10))"
    by (simp_all add: is_int_def perfect_def)
  show ?thesis using h1 h2 h3 h4 h5 render_in_range[OF h1 h2 h3 h4 h5, of 5] by simp
qed

section \<open>Chunks and the end page\<close>

text \<open>
  C1 claims that the chunks cover \<open>[startPage, endPage)\<close> exactly.  With
  \<^verbatim>\<open>-s 1 -e 5 -c 3\<close> on a document of 10 pages the range is \<open>[0, 5)\<close>, yet the
  chunks are \<open>[0, 3)\<close> and \<open>[3, 6)\<close>: only the first chunk end is bounded by the end
  page, the later ones by the page count alone, so page 5 is converted as well and the
  second chunk has three pages, not two.  The run then ends in the panic of
  \<^verbatim>\<open>strings.Repeat\<close>: \<^verbatim>\<open>logProgress(5, 6)\<close> asks for a bar of 24 signs and
  \<open>-4\<close> blanks.
\<close>

theorem chunk_overshoot:
  "startPage 1 5 = 0 \<and> endPage 5 10 = 5 \<and>
   main (perfect 10) 1 5 3 = Some (Inl (RepeatPanic,
     \<lparr>dir = [(''001.jpg'', Encoded 0), (''002.jpg'', Encoded 1), (''003.jpg'', Encoded 2),
              (''004.jpg'', Encoded 3), (''005.jpg'', Encoded 4), (''006.jpg'', Encoded 5)],
       images = [0, 1, 2, 3, 4, 5],
       progress = [(5, 0), (5, 3), (5, 5)], opens = 3,
       chunks = [(0, 3), (3, 6)]\<rparr>))"
  by (simp add: run_overshoot) (simp add: startPage_def endPage_def)

section \<open>Errors\<close>

text \<open>
  C9, as stated, says that after a failure at page \<open>k\<close> the output holds exactly the
  files of the pages before \<open>k\<close>.  When the encoder fails at page 1 of a document of 3
  pages, the directory holds the file of page 0 and also \<^verbatim>\<open>002.jpg\<close>, created for
  page 1 before the encoder was called; the files of the pages before page 1 alone are
  \<open>written 0 1\<close>.
\<close>

theorem files_after_failure_counterexample:
  "main (encodeFailsAt 3 1) 0 (- 1) 100 = Some (Inl (EncodeError 1,
     \<lparr>dir = [(''001.jpg'', Encoded 0), (''002.jpg'', Created)],
       images = [0, 1], progress = [(3, 0)], opens = 2, chunks = [(0, 3)]\<rparr>))
   \<and> startPage 0 (- 1) = 0
   \<and> written 0 1 = [(''001.jpg'', Encoded 0)]"
  by (simp add: run_encode_fails written_values) (simp add: startPage_def)

text \<open>
  C9, amended, for a positive chunk size and a document of at most \<open>2\<^sup>5\<^sup>2\<close> pages:
  every run returns.  When it returns without an error, no call for a page it
  passed to the renderer and no opening of the renderer has failed.  When it returns an
  error, it has stopped at one page \<open>k\<close> at the first call that failed: every call
  before has succeeded, page \<open>k\<close> is the last page passed to the renderer (or the next
  one, when it was the renderer that could not be opened or the progress bar that
  panicked), and the directory holds the finished files of the pages from the start page
  up to \<open>k\<close>, in their order, and nothing else, except that after a failure of the
  encoder it also holds the file created for page \<open>k\<close>.
\<close>

theorem error_stops_run:
  assumes "is_int s" "is_int c" "0 < c" "0 \<le> numPages e" "numPages e \<le> 4503599627370496"
  shows "\<exists>r. main e s en c = Some r \<and>
     (case r of
        Inr (count, w) \<Rightarrow>
          (\<forall>n \<in> set (images w). pageOk e n) \<and> (\<forall>i<opens w. \<not> openFails e i)
      | Inl (err, w) \<Rightarrow>
          (\<exists>k. startPage s en \<le> k
              \<and> (\<forall>j. startPage s en \<le> j \<and> j < k \<longrightarrow> pageOk e j)
              \<and> (\<forall>i<opens w - 1. \<not> openFails e i)
              \<and> stoppedAt e (startPage s en) (endPage en (numPages e) - startPage s en) k err w))"
proof (cases "openFails e 0")
  case True
  let ?tot = "endPage en (numPages e) - startPage s en"
  have "stoppedAt e (startPage s en) ?tot (startPage s en) OpenError (world0\<lparr>opens := 1\<rparr>)"
    using True by (simp add: stoppedAt_def world0_def written_def)
  then have "\<exists>k. startPage s en \<le> k
              \<and> (\<forall>j. startPage s en \<le> j \<and> j < k \<longrightarrow> pageOk e j)
              \<and> (\<forall>i<opens (world0\<lparr>opens := 1\<rparr>) - 1. \<not> openFails e i)
              \<and> stoppedAt e (startPage s en) ?tot k OpenError (world0\<lparr>opens := 1\<rparr>)"
    by (intro exI[of _ "startPage s en"]) auto
  then show ?thesis using True by (simp add: main_open_fails)
next
  case False
  let ?sp = "startPage s en"
  let ?tot = "endPage en (numPages e) - startPage s en"
  from main_reached[OF assms False, of en] obtain r where r: "main e s en c = Some r"
    and re: "reached e ?sp (numPages e) ?tot ?sp r" by blast
  have "case r of
        Inr (count, w) \<Rightarrow>
          (\<forall>n \<in> set (images w). pageOk e n) \<and> (\<forall>i<opens w. \<not> openFails e i)
      | Inl (err, w) \<Rightarrow>
          (\<exists>k. ?sp \<le> k \<and> (\<forall>j. ?sp \<le> j \<and> j < k \<longrightarrow> pageOk e j)
              \<and> (\<forall>i<opens w - 1. \<not> openFails e i) \<and> stoppedAt e ?sp ?tot k err w)"
  proof (cases r)
    case (Inl p)
    obtain err w where p: "p = (err, w)" by (cases p)
    from re Inl p show ?thesis by (auto simp: reached_def)
  next
    case (Inr p)
    obtain count w where p: "p = (count, w)" by (cases p)
    from re Inr p show ?thesis by (auto simp: reached_def)
  qed
  with r show ?thesis by blast
qed

theorem error_stops_run_witness:
  "is_int 0 \<and> is_int 100 \<and> (0::int) < 100 \<and> 0 \<le> numPages (renderFailsAt 3 1)
   \<and> numPages (renderFailsAt 3 1) \<le> 4503599627370496
   \<and> (\<exists>r. main (renderFailsAt 3 1) 0 (- 1) 100 = Some r \<and>
     (case r of
        Inr (count, w) \<Rightarrow>
          (\<forall>n \<in> set (images w). pageOk (renderFailsAt 3 1) n)
          \<and> (\<forall>i<opens w. \<not> openFails (renderFailsAt 3 1) i)
      | Inl (err, w) \<Rightarrow>
          (\<exists>k. startPage 0 (- 1) \<le> k
              \<and> (\<forall>j. startPage 0 (- 1) \<le> j \<and> j < k \<longrightarrow> pageOk (renderFailsAt 3 1) j)
              \<and> (\<forall>i<opens w - 1. \<not> openFails (renderFailsAt 3 1) i)
              \<and> stoppedAt (renderFailsAt 3 1) (startPage 0 (- 1))
                   (endPage (- 1) (numPages (renderFailsAt 3 1)) - startPage 0 (- 1)) k err w)))"
proof -
  have h1: "is_int 0" and h2: "is_int 100" and h3: "(0::int) < 100"
    and h4: "0 \<le> numPages (renderFailsAt 3 1)"
    and h5: "numPages (renderFailsAt 3 1) \<le> 4503599627370496"
    by (simp_all add: is_int_def perfect_def renderFailsAt_def)
  show ?thesis using h1 h2 h3 h4 h5 error_stops_run[OF h1 h2 h3 h4 h5, of "- 1"] by simp
qed

section \<open>The counter and the file names\<close>

text \<open>
  C3, as stated, says that the counter of a run that ends without an error is
  \<open>endPage - startPage\<close>.  With \<^verbatim>\<open>-s 5 -e 10\<close> on a document of 3 pages the run
  ends without an error and the counter is 0, while \<open>endPage - startPage\<close> is \<open>-1\<close>.
\<close>

theorem counter_counterexample:
  "main (perfect 3) 5 10 100 = Some (Inr (0,
     \<lparr>dir = [], images = [], progress = [], opens = 1, chunks = []\<rparr>))
   \<and> endPage 10 (numPages (perfect 3)) - startPage 5 10 = - 1"
  by (simp add: run_beyond) (simp add: startPage_def endPage_def perfect_def)

text \<open>
  C3, amended: let the chunk size be positive, the document have at most \<open>2\<^sup>5\<^sup>2\<close>
  pages, and \<open>numPages e + c\<close> fit a machine integer.  Then in every run that ends
  without an error the counter is
  \<open>max 0 (endPage - startPage)\<close>, one for every page of the range, the pages passed to
  the renderer and the files in the directory are those of exactly these pages, and the
  file of page \<open>n\<close> is named by the number \<open>n + 1\<close>, padded with zeros to a width
  of at least three, followed by \<^verbatim>\<open>.jpg\<close>.
\<close>

theorem counter_exact:
  assumes "is_int s" "0 < c" "0 \<le> numPages e" "numPages e \<le> 4503599627370496"
    and "numPages e + c < 9223372036854775808"
    and "main e s en c = Some (Inr (count, w))"
  shows "count = max 0 (endPage en (numPages e) - startPage s en)
     \<and> images w = [startPage s en..startPage s en + count - 1]
     \<and> dir w = written (startPage s en) (startPage s en + count)
     \<and> (\<forall>n. startPage s en \<le> n \<and> n < startPage s en + count \<longrightarrow>
            (\<exists>str. fileName n = str @ ''.jpg'' \<and> padded3 (nat (n + 1)) str))"
proof -
  let ?sp = "startPage s en"
  have sp: "0 \<le> ?sp" using startPage_range[OF assms(1)] by simp
  note m = main_count[OF assms]
  have "\<exists>str. fileName n = str @ ''.jpg'' \<and> padded3 (nat (n + 1)) str"
    if "?sp \<le> n \<and> n < ?sp + count" for n
  proof (rule fileName_padded)
    show "0 \<le> n" using that sp by simp
    show "n < 9223372036854775807" using that m(4) assms(4) by auto
  qed
  with m(1,2,3) show ?thesis by simp
qed

theorem counter_exact_witness:
  "is_int 0 \<and> (0::int) < 3 \<and> 0 \<le> numPages (perfect 5)
   \<and> numPages (perfect 5) \<le> 4503599627370496
   \<and> numPages (perfect 5) + 3 < 9223372036854775808
   \<and> main (perfect 5) 0 (- 1) 3 = Some (Inr (5,
     \<lparr>dir = [(''001.jpg'', Encoded 0), (''002.jpg'', Encoded 1), (''003.jpg'', Encoded 2),
              (''004.jpg'', Encoded 3), (''005.jpg'', Encoded 4)],
       images = [0, 1, 2, 3, 4],
       progress = [(5, 0), (5, 3), (5, 5)], opens = 3,
       chunks = [(0, 3), (3, 5)]\<rparr>))
   \<and> (5::int) = max 0 (endPage (- 1) (numPages (perfect 5)) - startPage 0 (- 1))
   \<and> written (startPage 0 (- 1)) (startPage 0 (- 1) + 5) =
       [(''001.jpg'', Encoded 0), (''002.jpg'', Encoded 1), (''003.jpg'', Encoded 2),
        (''004.jpg'', Encoded 3), (''005.jpg'', Encoded 4)]
   \<and> (\<exists>str. fileName 4 = str @ ''.jpg'' \<and> padded3 (nat (4 + 1)) str)"
proof -
  have h1: "is_int 0" and h2: "(0::int) < 3" and h3: "0 \<le> numPages (perfect 5)"
    and h4: "numPages (perfect 5) \<le> 4503599627370496"
    and h5: "numPages (perfect 5) + 3 < 9223372036854775808"
    by (simp_all add: is_int_def perfect_def)
  note t = counter_exact[OF h1 h2 h3 h4 h5 run_two_chunks]
  have sp: "startPage 0 (- 1) = 0" by (simp add: startPage_def)
  note t3 = t[THEN conjunct2, THEN conjunct2, THEN conjunct2, THEN spec, of 4]
  from t3 have "\<exists>str. fileName 4 = str @ ''.jpg'' \<and> padded3 (nat (4 + 1)) str"
    by (simp add: sp)
  with t h1 h2 h3 h4 h5 show ?thesis by (simp add: run_two_chunks)
qed

section \<open>The progress bar\<close>

text \<open>
  C7: for every \<open>cur\<close> in \<open>[0, tot]\<close> with \<open>tot > 0\<close> (up to \<open>2\<^sup>4\<^sup>7\<close> pages),
  the line of \<^verbatim>\<open>logProgress(tot, cur)\<close> shows a bar of 20 characters between the
  brackets, of which the first \<open>\<lceil>20 \<cdot> cur / tot\<rceil>\<close> are \<^verbatim>\<open>#\<close> and the others are
  blanks, followed by the percentage with one digit after the point.  The computation in
  doubles gives the exact number of signs, and the percentage shown is within half a
  tenth, and the rounding error of the doubles, of \<open>100 \<cdot> cur / tot\<close>.
\<close>

theorem progress_bar:
  assumes "0 \<le> cur" "cur \<le> tot" "0 < tot" "tot \<le> 140737488355328"
  shows "progressLine tot cur =
     Inr ([CHR 0x0D] @ ''through pg: '' @ decimal (nat cur) @ [CHR 0x09] @ ''[''
          @ replicate (nat \<lceil>(of_int (20 * cur) :: rat) / of_int tot\<rceil>) CHR ''#''
          @ replicate (20 - nat \<lceil>(of_int (20 * cur) :: rat) / of_int tot\<rceil>) CHR '' ''
          @ ''] '' @ decimal (nat (tenths tot cur div 10)) @ ''.''
          @ [digit (nat (tenths tot cur mod 10))] @ ''%'')
     \<and> 0 \<le> \<lceil>(of_int (20 * cur) :: rat) / of_int tot\<rceil>
     \<and> \<lceil>(of_int (20 * cur) :: rat) / of_int tot\<rceil> \<le> 20
     \<and> \<bar>(of_int (tenths tot cur) :: rat) / 10 - 100 * (of_int cur / of_int tot)\<bar>
          \<le> 1 / 20 + 1 / 35184372088832"
proof -
  have b: "tot \<le> 9007199254740992" using assms(4) by simp
  have c: "f64 (of_int cur) = of_int cur" using assms b by (intro f64_int) simp_all
  have t: "f64 (of_int tot) = of_int tot" using assms b by (intro f64_tot) simp_all
  note ex = symCnt_exact[OF assms]
  note le = symCnt_le_20[OF assms(1,2,3) b]
  have line: "progressLine tot cur =
     Inr ([CHR 0x0D] @ ''through pg: '' @ decimal (nat cur) @ [CHR 0x09] @ ''[''
          @ replicate (nat \<lceil>(of_int (20 * cur) :: rat) / of_int tot\<rceil>) CHR ''#''
          @ replicate (20 - nat \<lceil>(of_int (20 * cur) :: rat) / of_int tot\<rceil>) CHR '' ''
          @ ''] '' @ decimal (nat (tenths tot cur div 10)) @ ''.''
          @ [digit (nat (tenths tot cur mod 10))] @ ''%'')"
    unfolding progressLine_ok[OF assms(1,2,3) b] sprintf_1f_tenths[OF assms(1,2,3) b] ex
    by simp
  have r: "0 \<le> \<lceil>(of_int (20 * cur) :: rat) / of_int tot\<rceil>"
      "\<lceil>(of_int (20 * cur) :: rat) / of_int tot\<rceil> \<le> 20"
    using le unfolding c t ex by simp_all
  have n: "\<bar>(of_int (tenths tot cur) :: rat) / 10 - 100 * (of_int cur / of_int tot)\<bar>
          \<le> 1 / 20 + 1 / 35184372088832"
    unfolding tenths_eq[OF assms(1,2,3) b] by (rule percent_near(2)[OF assms(1,2,3)])
  from line r n show ?thesis by simp
qed

theorem progress_bar_witness:
  "(0::int) \<le> 5 \<and> (5::int) \<le> 10 \<and> (0::int) < 10 \<and> (10::int) \<le> 140737488355328
   \<and> progressLine 10 5 =
       Inr ([CHR 0x0D] @ ''through pg: 5'' @ [CHR 0x09] @ ''[##########          ] 50.0%'')
   \<and> \<lceil>(of_int (20 * 5) :: rat) / of_int 10\<rceil> = 10 \<and> tenths 10 5 = 500"
proof -
  have h1: "(0::int) \<le> 5" and h2: "(5::int) \<le> 10" and h3: "(0::int) < 10"
    and h4: "(10::int) \<le> 140737488355328"
    by simp_all
  have k: "\<lceil>(of_int (20 * 5) :: rat) / of_int 10\<rceil> = 10" by simp
  note t = progress_bar[OF h1 h2 h3 h4]
  from t[THEN conjunct1] have "progressLine 10 5 =
       Inr ([CHR 0x0D] @ ''through pg: 5'' @ [CHR 0x09] @ ''[##########          ] 50.0%'')"
    unfolding k by (simp add: bar_values)
  with k h1 show ?thesis by (simp add: bar_values)
qed

end
